theory Spec2Isabelle
  imports
    Main
    "HOL-Library.Char_ord"
    "HOL-Library.List_Lexorder"
    "HOL-Library.Product_Lexorder"
    "HOL-Library.Extended_Nat"
    "HOL-Library.Sublist"
begin

section \<open>Strings\<close>

text \<open>
  A Python \<^verbatim>\<open>str\<close> is a sequence of code points. It is modelled as a \<^typ>\<open>string\<close>,
  each \<^typ>\<open>char\<close> standing for the code point of the same number (0 to 255).
  Strings are compared as Python compares them: lexicographically by code point, a proper
  prefix being smaller (\<open>List_Lexorder\<close> over \<open>Char_ord\<close>).
\<close>

definition is_space :: "char \<Rightarrow> bool" where
  \<comment> \<open>\<^verbatim>\<open>str.isspace\<close> on one code point below 256: what \<^verbatim>\<open>str.strip()\<close> removes\<close>
  "is_space c \<longleftrightarrow>
     c \<in> set [CHR 0x09, CHR 0x0A, CHR 0x0B, CHR 0x0C, CHR 0x0D, CHR 0x1C, CHR 0x1D,
              CHR 0x1E, CHR 0x1F, CHR 0x20, CHR 0x85, CHR 0xA0]"

definition strip :: "string \<Rightarrow> string" where
  \<comment> \<open>\<^verbatim>\<open>s.strip()\<close>\<close>
  "strip s = rev (dropWhile is_space (rev (dropWhile is_space s)))"

definition replace :: "char \<Rightarrow> char \<Rightarrow> string \<Rightarrow> string" where
  \<comment> \<open>\<^verbatim>\<open>s.replace(old, new)\<close> for one-character \<^verbatim>\<open>old\<close> and \<^verbatim>\<open>new\<close>\<close>
  "replace old new s = map (\<lambda>c. if c = old then new else c) s"

section \<open>receipt_io.sanitize_filename\<close>

definition unsafe :: "char list" where
  \<comment> \<open>\<^verbatim>\<open>unsafe = {"/", "\\"}\<close>, in one of the two orders the set can be iterated in\<close>
  "unsafe = [CHR ''/'', CHR 0x5C]"

definition sanitize_filename :: "string \<Rightarrow> string" where
  "sanitize_filename name = strip (fold (\<lambda>char name. replace char CHR ''_'' name) unsafe name)"

section \<open>Paths and the file system\<close>

text \<open>
  Paths are those of the POSIX flavour of \<^verbatim>\<open>pathlib\<close>. A location in the file system is the
  list of the names that lead to it from the root; the functions below take the location
  their \<^verbatim>\<open>str\<close> or \<^verbatim>\<open>Path\<close> argument denotes.
  Two \<^verbatim>\<open>Path\<close> objects under one flavour compare as their lists of parts do, which is
  the lexicographic order of \<^typ>\<open>string list\<close>.

  The file system is a finite table from locations to nodes, read through \<^const>\<open>map_of\<close>:
  the first entry of a location is the node there. Symbolic links, permissions and the
  limits of the operating system (name length, free space) are not part of the model; a
  node that is neither a regular file nor a directory is \<open>Other\<close>. A regular file holds
  text or a zip archive, the list of its members (name and data) in the order they were
  written.
\<close>

type_synonym path = "string list"

datatype content = Text string | Archive "(string \<times> content) list"

datatype node = File content | Dir | Other

type_synonym filesystem = "(path \<times> node) list"

datatype error =
    FileExistsError
  | FileNotFoundError
  | NotADirectoryError
  | IsADirectoryError
  | OSError
  | BadZipFile
  | ValueError string
  | ModelServiceError string

definition is_dir :: "filesystem \<Rightarrow> path \<Rightarrow> bool" where
  "is_dir fs p \<longleftrightarrow> map_of fs p = Some Dir"

definition is_file :: "filesystem \<Rightarrow> path \<Rightarrow> bool" where
  "is_file fs p \<longleftrightarrow> (case map_of fs p of Some (File c) \<Rightarrow> True | _ \<Rightarrow> False)"

definition children :: "filesystem \<Rightarrow> path \<Rightarrow> path list" where
  \<comment> \<open>the entries of a directory, each once, in the order the table lists them\<close>
  "children fs d = remdups (filter (\<lambda>p. p \<noteq> [] \<and> butlast p = d) (map fst fs))"

definition iterdir :: "filesystem \<Rightarrow> path \<Rightarrow> error + path list" where
  "iterdir fs d =
     (case map_of fs d of
        Some Dir \<Rightarrow> Inr (children fs d)
      | None \<Rightarrow> Inl FileNotFoundError
      | _ \<Rightarrow> Inl NotADirectoryError)"

definition path_name :: "path \<Rightarrow> string" where
  \<comment> \<open>\<^verbatim>\<open>Path.name\<close>: the final component\<close>
  "path_name p = (if p = [] then [] else last p)"

definition rfind :: "char \<Rightarrow> string \<Rightarrow> nat option" where
  \<comment> \<open>\<^verbatim>\<open>s.rfind(c)\<close>, \<open>None\<close> for -1\<close>
  "rfind c s =
     (if c \<in> set s then Some (length s - 1 - length (takeWhile (\<lambda>x. x \<noteq> c) (rev s)))
      else None)"

definition path_suffix :: "path \<Rightarrow> string" where
  \<comment> \<open>\<^verbatim>\<open>Path.suffix\<close>: \<^verbatim>\<open>name[i:]\<close> if \<^verbatim>\<open>0 < i < len(name) - 1\<close> for \<^verbatim>\<open>i = name.rfind('.')\<close>\<close>
  "path_suffix p =
     (let name = path_name p in
      case rfind CHR ''.'' name of
        Some i \<Rightarrow> if 0 < i \<and> i < length name - 1 then drop i name else []
      | None \<Rightarrow> [])"

definition path_stem :: "path \<Rightarrow> string" where
  \<comment> \<open>\<^verbatim>\<open>Path.stem\<close>: the name without its suffix\<close>
  "path_stem p =
     (let name = path_name p in
      case rfind CHR ''.'' name of
        Some i \<Rightarrow> if 0 < i \<and> i < length name - 1 then take i name else name
      | None \<Rightarrow> name)"

fun split_on :: "char \<Rightarrow> string \<Rightarrow> string list" where
  \<comment> \<open>\<^verbatim>\<open>s.split(sep)\<close> for a one-character separator\<close>
  "split_on sep [] = [[]]"
| "split_on sep (c # s) =
     (if c = sep then [] # split_on sep s
      else (case split_on sep s of x # xs \<Rightarrow> (c # x) # xs | [] \<Rightarrow> [[c]]))"

definition parse_parts :: "string \<Rightarrow> string list" where
  \<comment> \<open>the parts of a POSIX path string: empty components and \<^verbatim>\<open>.\<close> are dropped, \<^verbatim>\<open>..\<close> is kept\<close>
  "parse_parts s = filter (\<lambda>x. x \<noteq> [] \<and> x \<noteq> ''.'') (split_on CHR ''/'' s)"

definition is_absolute :: "string \<Rightarrow> bool" where
  "is_absolute s \<longleftrightarrow> (case s of c # _ \<Rightarrow> c = CHR ''/'' | [] \<Rightarrow> False)"

definition joinpath :: "path \<Rightarrow> string \<Rightarrow> path" where
  \<comment> \<open>\<^verbatim>\<open>Path(d, s)\<close>: an absolute \<^verbatim>\<open>s\<close> replaces \<^verbatim>\<open>d\<close>\<close>
  "joinpath d s = (if is_absolute s then parse_parts s else d @ parse_parts s)"

definition ensure_directory :: "filesystem \<Rightarrow> path \<Rightarrow> error + filesystem" where
  \<comment> \<open>\<^verbatim>\<open>path.mkdir(parents=True, exist_ok=True)\<close>: every missing ancestor and the directory
      itself are created; a non-directory in the way is an error\<close>
  "ensure_directory fs p =
     (case find (\<lambda>q. map_of fs q \<noteq> None \<and> map_of fs q \<noteq> Some Dir) (prefixes p) of
        Some q \<Rightarrow> Inl (if q = p then FileExistsError else NotADirectoryError)
      | None \<Rightarrow>
          Inr (map (\<lambda>q. (q, Dir)) (filter (\<lambda>q. map_of fs q = None) (prefixes p)) @ fs))"

definition write_file :: "filesystem \<Rightarrow> path \<Rightarrow> content \<Rightarrow> error + filesystem" where
  \<comment> \<open>opening a file for writing and storing \<open>c\<close>: the file is created or truncated;
      writing to a node that is not a regular file is taken to fail\<close>
  "write_file fs p c =
     (case map_of fs p of
        Some Dir \<Rightarrow> Inl IsADirectoryError
      | Some Other \<Rightarrow> Inl OSError
      | _ \<Rightarrow>
          if p = [] then Inl IsADirectoryError
          else if is_dir fs (butlast p) then Inr ((p, File c) # fs)
          else if map_of fs (butlast p) = None then Inl FileNotFoundError
          else Inl NotADirectoryError)"

definition write_text :: "filesystem \<Rightarrow> path \<Rightarrow> string \<Rightarrow> error + filesystem" where
  \<comment> \<open>\<^verbatim>\<open>path.write_text(content, encoding="utf-8")\<close>: the file holds exactly \<^verbatim>\<open>content\<close>\<close>
  "write_text fs p content = write_file fs p (Text content)"

section \<open>receipt_io._page_sort_key\<close>

definition is_digit :: "char \<Rightarrow> bool" where
  \<comment> \<open>\<^verbatim>\<open>\d\<close> on a code point below 256\<close>
  "is_digit c \<longleftrightarrow> CHR ''0'' \<le> c \<and> c \<le> CHR ''9''"

definition int_of_digits :: "string \<Rightarrow> nat" where
  \<comment> \<open>\<^verbatim>\<open>int(s)\<close> for a non-empty run of digits (a file name is far shorter than the
      longest digit string \<^verbatim>\<open>int\<close> converts)\<close>
  "int_of_digits s = foldl (\<lambda>n c. 10 * n + (of_char c - 48)) 0 s"

definition page_prefix :: "string \<Rightarrow> string option" where
  \<comment> \<open>\<^verbatim>\<open>page\<close> under \<^verbatim>\<open>re.IGNORECASE\<close> at the start of the string; the rest of the string\<close>
  "page_prefix s =
     (case s of
        c1 # c2 # c3 # c4 # r \<Rightarrow>
          if (c1 = CHR ''p'' \<or> c1 = CHR ''P'') \<and> (c2 = CHR ''a'' \<or> c2 = CHR ''A'') \<and>
             (c3 = CHR ''g'' \<or> c3 = CHR ''G'') \<and> (c4 = CHR ''e'' \<or> c4 = CHR ''E'')
          then Some r else None
      | _ \<Rightarrow> None)"

definition skip_sep :: "string \<Rightarrow> string" where
  \<comment> \<open>\<^verbatim>\<open>[_-]?\<close>: greedy; giving the separator back never helps, as a separator is no digit\<close>
  "skip_sep r = (case r of c # t \<Rightarrow> if c = CHR ''_'' \<or> c = CHR ''-'' then t else r | [] \<Rightarrow> r)"

definition match_page_at :: "string \<Rightarrow> string option" where
  \<comment> \<open>\<^verbatim>\<open>page[_-]?(\d+)\<close> matched at the start of the string: group 1\<close>
  "match_page_at s =
     (case page_prefix s of
        None \<Rightarrow> None
      | Some r \<Rightarrow>
          (let d = takeWhile is_digit (skip_sep r) in if d = [] then None else Some d))"

fun page_search :: "string \<Rightarrow> string option" where
  \<comment> \<open>\<^verbatim>\<open>re.search\<close>: the leftmost position where the pattern matches\<close>
  "page_search [] = None"
| "page_search (c # s) =
     (case match_page_at (c # s) of Some d \<Rightarrow> Some d | None \<Rightarrow> page_search s)"

function digit_runs :: "string \<Rightarrow> string list" where
  \<comment> \<open>\<^verbatim>\<open>re.findall(r"(\d+)", s)\<close>: the maximal runs of digits, left to right\<close>
  "digit_runs [] = []"
| "digit_runs (c # s) =
     (if is_digit c then takeWhile is_digit (c # s) # digit_runs (dropWhile is_digit s)
      else digit_runs s)"
  by pat_completeness auto
termination
  by (relation "measure length") (auto simp: length_dropWhile_le less_Suc_eq_le)

definition page_sort_key :: "path \<Rightarrow> enat \<times> string" where
  \<comment> \<open>the first component is an \<^verbatim>\<open>int\<close> or \<^verbatim>\<open>float("inf")\<close>\<close>
  "page_sort_key p =
     (case page_search (path_stem p) of
        Some d \<Rightarrow> (enat (int_of_digits d), path_name p)
      | None \<Rightarrow>
          (case digit_runs (path_stem p) of
             [] \<Rightarrow> (\<infinity>, path_name p)
           | x # xs \<Rightarrow> (enat (int_of_digits (last (x # xs))), path_name p)))"

section \<open>receipt_io.discover_receipts\<close>

record ReceiptGroup =
  name :: string
  pages :: "path list"

definition PNG_EXTENSIONS :: "string set" where
  "PNG_EXTENSIONS = {''.png'', ''.PNG''}"

definition collect_pages :: "filesystem \<Rightarrow> path \<Rightarrow> path list" where
  \<comment> \<open>the list comprehension; \<^verbatim>\<open>entry\<close> is a directory\<close>
  "collect_pages fs entry =
     filter (\<lambda>p. is_file fs p \<and> path_suffix p \<in> PNG_EXTENSIONS)
       (sort_key page_sort_key (children fs entry))"

fun collect_receipts :: "filesystem \<Rightarrow> path list \<Rightarrow> ReceiptGroup list" where
  \<comment> \<open>the loop over the sorted entries of the root\<close>
  "collect_receipts fs [] = []"
| "collect_receipts fs (entry # rest) =
     (if is_dir fs entry then
        (let pages = collect_pages fs entry in
         if pages \<noteq> [] then \<lparr>name = path_name entry, pages = pages\<rparr> # collect_receipts fs rest
         else collect_receipts fs rest)
      else collect_receipts fs rest)"

definition discover_receipts :: "filesystem \<Rightarrow> path \<Rightarrow> error + ReceiptGroup list" where
  "discover_receipts fs root_dir =
     (case iterdir fs root_dir of
        Inl e \<Rightarrow> Inl e
      | Inr entries \<Rightarrow> Inr (collect_receipts fs (sort entries)))"

section \<open>receipt_io.write_output\<close>

definition write_output ::
  "filesystem \<Rightarrow> string \<Rightarrow> string \<Rightarrow> string \<Rightarrow> path \<Rightarrow> error + path \<times> filesystem" where
  "write_output fs receipt_name content output_format output_dir =
     (let ext = (if output_format = ''markdown'' then ''md'' else ''json'');
          safe_name = sanitize_filename receipt_name
      in case ensure_directory fs output_dir of
           Inl e \<Rightarrow> Inl e
         | Inr fs1 \<Rightarrow>
             (let path = joinpath output_dir (safe_name @ ''.'' @ ext)
              in case write_text fs1 path content of
                   Inl e \<Rightarrow> Inl e
                 | Inr fs2 \<Rightarrow> Inr (path, fs2)))"

definition output_file_name :: "string \<Rightarrow> string \<Rightarrow> string" where
  \<comment> \<open>the file name \<^verbatim>\<open>f"{safe_name}.{ext}"\<close> that \<^verbatim>\<open>write_output\<close> computes\<close>
  "output_file_name receipt_name output_format =
     sanitize_filename receipt_name @ ''.'' @ (if output_format = ''markdown'' then ''md'' else ''json'')"

section \<open>receipt_io.build_outputs_zip\<close>

definition zip_members :: "filesystem \<Rightarrow> path \<Rightarrow> (string \<times> content) list" where
  \<comment> \<open>the loop over \<^verbatim>\<open>sorted(output_dir_path.glob("*"))\<close>: each regular file is written
      under \<^verbatim>\<open>arcname=file_path.name\<close>\<close>
  "zip_members fs d =
     List.map_filter
       (\<lambda>p. case map_of fs p of Some (File c) \<Rightarrow> Some (path_name p, c) | _ \<Rightarrow> None)
       (sort (children fs d))"

definition build_outputs_zip ::
  "filesystem \<Rightarrow> path \<Rightarrow> path \<Rightarrow> error + path \<times> filesystem" where
  \<comment> \<open>\<^verbatim>\<open>ZipFile(zip_file, "w")\<close> creates or truncates the archive before the directory is
      listed. When the archive lies in \<^verbatim>\<open>output_dir\<close> it is listed too; the data stored for
      it is then taken to be the archive as opened, empty.\<close>
  "build_outputs_zip fs output_dir zip_path =
     (case ensure_directory fs output_dir of
        Inl e \<Rightarrow> Inl e
      | Inr fs1 \<Rightarrow>
          (case write_file fs1 zip_path (Archive []) of
             Inl e \<Rightarrow> Inl e
           | Inr fs2 \<Rightarrow>
               Inr (zip_path, (zip_path, File (Archive (zip_members fs2 output_dir))) # fs2)))"

section \<open>receipt_io.safe_extract_zip\<close>

definition resolve :: "path \<Rightarrow> path" where
  \<comment> \<open>\<^verbatim>\<open>Path.resolve()\<close> on an absolute path without symbolic links: \<^verbatim>\<open>..\<close> removes the
      component before it, and stays at the root there\<close>
  "resolve p =
     rev (fold (\<lambda>c acc. if c = ''..'' then (case acc of [] \<Rightarrow> [] | _ # t \<Rightarrow> t) else c # acc) p [])"

definition path_str :: "path \<Rightarrow> string" where
  \<comment> \<open>\<^verbatim>\<open>str(path)\<close> of an absolute path\<close>
  "path_str p = (if p = [] then ''/'' else concat (map (\<lambda>c. CHR ''/'' # c) p))"

definition member_passes :: "path \<Rightarrow> string \<Rightarrow> string \<Rightarrow> bool" where
  \<comment> \<open>the negation of the test that raises:
      \<^verbatim>\<open>str(Path(dest_dir, member.filename).resolve()).startswith(str(Path(dest_dir).resolve()))\<close>;
      \<^verbatim>\<open>cwd\<close> is the working directory a relative path is resolved against\<close>
  "member_passes cwd dest_dir filename \<longleftrightarrow>
     prefix (path_str (resolve (joinpath cwd dest_dir)))
       (path_str (resolve (joinpath (joinpath cwd dest_dir) filename)))"

definition member_target :: "path \<Rightarrow> string \<Rightarrow> path" where
  \<comment> \<open>\<^verbatim>\<open>zipfile\<close> (standard library) places a member below the destination after dropping
      the empty, \<^verbatim>\<open>.\<close> and \<^verbatim>\<open>..\<close> components of its name\<close>
  "member_target dest filename =
     dest @ filter (\<lambda>x. x \<noteq> [] \<and> x \<noteq> ''.'' \<and> x \<noteq> ''..'') (split_on CHR ''/'' filename)"

definition member_is_dir :: "string \<Rightarrow> bool" where
  "member_is_dir filename \<longleftrightarrow> filename \<noteq> [] \<and> last filename = CHR ''/''"

definition extract_member :: "filesystem \<Rightarrow> path \<Rightarrow> string \<times> content \<Rightarrow> error + filesystem" where
  "extract_member fs dest m =
     (let target = member_target dest (fst m) in
      if member_is_dir (fst m) then ensure_directory fs target
      else (case ensure_directory fs (butlast target) of
              Inl e \<Rightarrow> Inl e
            | Inr fs1 \<Rightarrow> write_file fs1 target (snd m)))"

fun extractall :: "filesystem \<Rightarrow> path \<Rightarrow> (string \<times> content) list \<Rightarrow> error + filesystem" where
  \<comment> \<open>\<^verbatim>\<open>ZipFile.extractall\<close> (standard library)\<close>
  "extractall fs dest [] = Inr fs"
| "extractall fs dest (m # ms) =
     (case extract_member fs dest m of
        Inl e \<Rightarrow> Inl e
      | Inr fs1 \<Rightarrow> extractall fs1 dest ms)"

definition safe_extract_zip ::
  "filesystem \<Rightarrow> path \<Rightarrow> path \<Rightarrow> string \<Rightarrow> error + filesystem" where
  "safe_extract_zip fs cwd zip_path dest_dir =
     (case map_of fs zip_path of
        None \<Rightarrow> Inl FileNotFoundError
      | Some Dir \<Rightarrow> Inl IsADirectoryError
      | Some Other \<Rightarrow> Inl BadZipFile
      | Some (File (Text t)) \<Rightarrow> Inl BadZipFile
      | Some (File (Archive members)) \<Rightarrow>
          (case find (\<lambda>m. \<not> member_passes cwd dest_dir (fst m)) members of
             Some m \<Rightarrow> Inl (ValueError (''Unsafe path detected in zip: '' @ fst m))
           | None \<Rightarrow> extractall fs (resolve (joinpath cwd dest_dir)) members))"

section \<open>prompts\<close>




section \<open>app._run_model\<close>











section \<open>Notions of the specification\<close>

text \<open>
  The specification speaks of an extension that matches case-insensitively, of a stem that
  contains the page pattern and of a stem that contains digits. These are stated here in
  its words, to be compared with what the code computes.
\<close>

definition lower_char :: "char \<Rightarrow> char" where
  \<comment> \<open>the lower-case form of an ASCII letter; any other character is unchanged\<close>
  "lower_char c =
     (case map_of (zip ''ABCDEFGHIJKLMNOPQRSTUVWXYZ'' ''abcdefghijklmnopqrstuvwxyz'') c of
        Some l \<Rightarrow> l
      | None \<Rightarrow> c)"

definition page_occurs :: "string \<Rightarrow> string \<Rightarrow> string \<Rightarrow> string \<Rightarrow> bool" where
  \<comment> \<open>after \<open>pre\<close>, the string goes on with the word page in any case, an optional
      separator \<^verbatim>\<open>_\<close> or \<^verbatim>\<open>-\<close>, and the digits \<open>d\<close>; \<open>rest\<close> follows\<close>
  "page_occurs pre d rest s \<longleftrightarrow>
     (\<exists>w sep. s = pre @ w @ sep @ d @ rest \<and> map lower_char w = ''page'' \<and>
        (sep = [] \<or> sep = ''_'' \<or> sep = ''-'') \<and> d \<noteq> [] \<and> list_all is_digit d)"

definition has_page_pattern :: "string \<Rightarrow> bool" where
  "has_page_pattern s \<longleftrightarrow> (\<exists>pre d rest. page_occurs pre d rest s)"

definition has_digit :: "string \<Rightarrow> bool" where
  "has_digit s \<longleftrightarrow> list_ex is_digit s"

section \<open>Properties of sanitize_filename\<close>

lemma is_space_underscore: "\<not> is_space CHR ''_''"
  by (simp add: is_space_def)

lemma is_space_replace:
  "is_space (if c = CHR ''/'' \<or> c = CHR 0x5C then CHR ''_'' else c) = is_space c"
  by (auto simp: is_space_def)

lemma replace_unsafe:
  "fold (\<lambda>char s. replace char CHR ''_'' s) unsafe nm =
   map (\<lambda>c. if c = CHR ''/'' \<or> c = CHR 0x5C then CHR ''_'' else c) nm"
  by (simp add: unsafe_def replace_def)

text \<open>The loop runs over a set; the other iteration order gives the same string.\<close>

lemma replace_unsafe_rev:
  "fold (\<lambda>char s. replace char CHR ''_'' s) (rev unsafe) nm =
   fold (\<lambda>char s. replace char CHR ''_'' s) unsafe nm"
  by (simp add: unsafe_def replace_def)

lemma set_strip_subset: "set (strip s) \<subseteq> set s"
proof -
  have "set (strip s) \<subseteq> set (dropWhile is_space s)"
    unfolding strip_def using set_dropWhileD [of _ is_space "rev (dropWhile is_space s)"]
    by auto
  also have "\<dots> \<subseteq> set s"
    using set_dropWhileD [of _ is_space s] by auto
  finally show ?thesis .
qed

lemma dropWhile_map_replace:
  "dropWhile is_space (map (\<lambda>c. if c = CHR ''/'' \<or> c = CHR 0x5C then CHR ''_'' else c) s) =
   map (\<lambda>c. if c = CHR ''/'' \<or> c = CHR 0x5C then CHR ''_'' else c) (dropWhile is_space s)"
  by (induction s) (simp_all add: is_space_replace del: set_simps)

lemma strip_map_replace:
  "strip (map (\<lambda>c. if c = CHR ''/'' \<or> c = CHR 0x5C then CHR ''_'' else c) s) =
   map (\<lambda>c. if c = CHR ''/'' \<or> c = CHR 0x5C then CHR ''_'' else c) (strip s)"
  by (simp add: strip_def dropWhile_map_replace rev_map)


lemma hd_rev_dropWhile_rev:
  assumes "rev (dropWhile P (rev ys)) \<noteq> []"
  shows "hd (rev (dropWhile P (rev ys))) = hd ys"
proof -
  have "rev ys = takeWhile P (rev ys) @ dropWhile P (rev ys)"
    by simp
  then have "rev (rev ys) = rev (takeWhile P (rev ys) @ dropWhile P (rev ys))"
    by (rule arg_cong)
  then have "ys = rev (dropWhile P (rev ys)) @ rev (takeWhile P (rev ys))"
    by (simp only: rev_rev_ident rev_append)
  then have "hd ys = hd (rev (dropWhile P (rev ys)) @ rev (takeWhile P (rev ys)))"
    by (rule arg_cong)
  also have "\<dots> = hd (rev (dropWhile P (rev ys)))"
    using assms by (rule hd_append2)
  finally show ?thesis by (rule sym)
qed

lemma dropWhile_rev_dropWhile:
  "dropWhile P (rev (dropWhile P (rev (dropWhile P s)))) = rev (dropWhile P (rev (dropWhile P s)))"
proof (cases "rev (dropWhile P (rev (dropWhile P s))) = []")
  case True
  then show ?thesis by (simp only: dropWhile.simps)
next
  case False
  have "dropWhile P s \<noteq> []"
  proof
    assume "dropWhile P s = []"
    then have "rev (dropWhile P (rev (dropWhile P s))) = []"
      by (simp only: rev.simps dropWhile.simps)
    with False show False ..
  qed
  then have "\<not> P (hd (dropWhile P s))"
    by (rule hd_dropWhile)
  then have "\<not> P (hd (rev (dropWhile P (rev (dropWhile P s)))))"
    using hd_rev_dropWhile_rev [OF False] by simp
  with False show ?thesis
    by (cases "rev (dropWhile P (rev (dropWhile P s)))") simp_all
qed

lemma strip_strip: "strip (strip s) = strip s"
proof -
  have a: "dropWhile is_space (strip s) = strip s"
    unfolding strip_def by (rule dropWhile_rev_dropWhile)
  have b: "dropWhile is_space (rev (strip s)) = rev (strip s)"
    unfolding strip_def
    using hd_dropWhile [of is_space "rev (dropWhile is_space s)"]
    by (cases "dropWhile is_space (rev (dropWhile is_space s))") auto
  show ?thesis
    using a b by (simp add: strip_def [of "strip s"])
qed



text \<open>
  C9. \<^verbatim>\<open>sanitize_filename\<close> is idempotent.
\<close>

theorem sanitize_filename_idempotent:
  "sanitize_filename (sanitize_filename s) = sanitize_filename s"
proof -
  let ?f = "\<lambda>c. if c = CHR ''/'' \<or> c = CHR 0x5C then CHR ''_'' else c"
  have ff: "map ?f (map ?f t) = map ?f t" for t
    by (induction t) simp_all
  have "sanitize_filename (sanitize_filename s) = strip (map ?f (strip (map ?f s)))"
    by (simp add: sanitize_filename_def replace_unsafe)
  also have "\<dots> = strip (strip (map ?f (map ?f s)))"
    by (simp only: strip_map_replace)
  also have "\<dots> = strip (map ?f s)"
    by (simp only: strip_strip ff)
  also have "\<dots> = sanitize_filename s"
    by (simp add: sanitize_filename_def replace_unsafe)
  finally show ?thesis .
qed

section \<open>Properties of the file system operations\<close>

lemma map_of_dirs:
  "map_of (map (\<lambda>q. (q, Dir)) ks) q = (if q \<in> set ks then Some Dir else None)"
  by (induction ks) auto

lemma find_None_prefixes:
  assumes "find (\<lambda>q. map_of fs q \<noteq> None \<and> map_of fs q \<noteq> Some Dir) (prefixes p) = None"
      and "q \<in> set (prefixes p)"
  shows "map_of fs q = None \<or> map_of fs q = Some Dir"
  using assms by (auto simp: find_None_iff)

lemma ensure_directory_Inr:
  "ensure_directory fs p = Inr fs' \<longleftrightarrow>
     find (\<lambda>q. map_of fs q \<noteq> None \<and> map_of fs q \<noteq> Some Dir) (prefixes p) = None \<and>
     fs' = map (\<lambda>q. (q, Dir)) (filter (\<lambda>q. map_of fs q = None) (prefixes p)) @ fs"
  by (auto simp: ensure_directory_def split: option.splits)

lemma map_of_ensure_directory:
  assumes "ensure_directory fs p = Inr fs'"
  shows "map_of fs' q = (if q \<in> set (prefixes p) then Some Dir else map_of fs q)"
proof -
  from assms have f: "find (\<lambda>q. map_of fs q \<noteq> None \<and> map_of fs q \<noteq> Some Dir) (prefixes p) = None"
    and fs': "fs' = map (\<lambda>q. (q, Dir)) (filter (\<lambda>q. map_of fs q = None) (prefixes p)) @ fs"
    by (simp_all add: ensure_directory_Inr)
  show ?thesis
  proof (cases "q \<in> set (prefixes p)")
    case True
    then have "map_of fs q = None \<or> map_of fs q = Some Dir"
      using f by (rule find_None_prefixes [rotated])
    then show ?thesis
      using True by (auto simp: fs' map_of_append map_add_def map_of_dirs)
  next
    case False
    then show ?thesis
      by (simp add: fs' map_of_append map_add_def map_of_dirs)
  qed
qed

lemma is_dir_ensure_directory:
  "ensure_directory fs p = Inr fs' \<Longrightarrow> is_dir fs' p"
  by (simp add: is_dir_def map_of_ensure_directory)

lemma ensure_directory_again:
  assumes "ensure_directory fs p = Inr fs'"
  shows "ensure_directory fs' p = Inr fs'"
proof -
  have all: "map_of fs' q = Some Dir" if "q \<in> set (prefixes p)" for q
    using that by (simp add: map_of_ensure_directory [OF assms])
  then have "find (\<lambda>q. map_of fs' q \<noteq> None \<and> map_of fs' q \<noteq> Some Dir) (prefixes p) = None"
    by (auto simp: find_None_iff)
  moreover have "filter (\<lambda>q. map_of fs' q = None) (prefixes p) = []"
    using all by (auto simp: filter_empty_conv)
  ultimately show ?thesis
    by (simp add: ensure_directory_Inr)
qed

lemma write_file_Inr:
  "write_file fs p c = Inr fs' \<longleftrightarrow>
     p \<noteq> [] \<and> is_dir fs (butlast p) \<and> map_of fs p \<noteq> Some Dir \<and> map_of fs p \<noteq> Some Other \<and>
     fs' = (p, File c) # fs"
  by (auto simp: write_file_def split: option.splits node.splits)

lemma split_on_no_sep: "sep \<notin> set s \<Longrightarrow> split_on sep s = [s]"
  by (induction s) auto

lemma joinpath_component:
  assumes "CHR ''/'' \<notin> set s" and "s \<noteq> []" and "s \<noteq> ''.''"
  shows "joinpath d s = d @ [s]"
proof -
  have "\<not> is_absolute s"
    using assms(1) by (cases s) (auto simp: is_absolute_def)
  moreover have "parse_parts s = [s]"
    using assms by (simp add: parse_parts_def split_on_no_sep)
  ultimately show ?thesis by (simp add: joinpath_def)
qed

lemma sanitize_filename_no_slash: "CHR ''/'' \<notin> set (sanitize_filename nm)"
proof -
  have "CHR ''/'' \<notin> set (map (\<lambda>c. if c = CHR ''/'' \<or> c = CHR 0x5C then CHR ''_'' else c) nm)"
    by auto
  then show ?thesis
    using set_strip_subset by (fastforce simp: sanitize_filename_def replace_unsafe)
qed

lemma output_path:
  "joinpath d (sanitize_filename nm @ ''.'' @ (if fmt = ''markdown'' then ''md'' else ''json'')) =
   d @ [output_file_name nm fmt]"
  unfolding output_file_name_def
  by (rule joinpath_component) (auto simp: sanitize_filename_no_slash)


lemma write_output_Inr:
  "write_output fs nm content fmt out = Inr (p, fs') \<longleftrightarrow>
     (\<exists>fs1. ensure_directory fs out = Inr fs1 \<and>
        p = out @ [output_file_name nm fmt] \<and>
        map_of fs1 p \<noteq> Some Dir \<and> map_of fs1 p \<noteq> Some Other \<and>
        fs' = (p, File (Text content)) # fs1)"
proof -
  define t where "t = out @ [output_file_name nm fmt]"
  have w: "write_output fs nm content fmt out =
     (case ensure_directory fs out of Inl e \<Rightarrow> Inl e
      | Inr fs1 \<Rightarrow> (case write_file fs1 t (Text content) of Inl e \<Rightarrow> Inl e | Inr fs2 \<Rightarrow> Inr (t, fs2)))"
    unfolding write_output_def Let_def output_path write_text_def t_def ..
  have t: "t \<noteq> []" "butlast t = out"
    by (simp_all add: t_def)
  show ?thesis
  proof (cases "ensure_directory fs out")
    case (Inl e)
    then show ?thesis by (simp add: w)
  next
    case (Inr fs1)
    then have d: "is_dir fs1 out"
      by (rule is_dir_ensure_directory)
    have wf: "write_file fs1 t (Text content) = Inr fs2 \<longleftrightarrow>
        map_of fs1 t \<noteq> Some Dir \<and> map_of fs1 t \<noteq> Some Other \<and> fs2 = (t, File (Text content)) # fs1" for fs2
      using d t by (simp add: write_file_Inr)
    show ?thesis
    proof (cases "write_file fs1 t (Text content)")
      case (Inl e)
      then have "\<not> (map_of fs1 t \<noteq> Some Dir \<and> map_of fs1 t \<noteq> Some Other)"
        using wf [of "(t, File (Text content)) # fs1"] by simp
      then show ?thesis
        using Inl Inr by (auto simp: w t_def [symmetric])
    next
      case r: (Inr fs2)
      then show ?thesis
        using Inr wf [of fs2] by (auto simp: w t_def [symmetric])
    qed
  qed
qed

text \<open>When \<^verbatim>\<open>write_output\<close> succeeds: nothing but directories lies on the way to the output
  directory, and the target is not a directory or a special node.\<close>

lemma write_output_succeeds:
  assumes "\<forall>q \<in> set (prefixes out). map_of fs q = None \<or> map_of fs q = Some Dir"
      and "map_of fs (out @ [output_file_name nm fmt]) \<notin> {Some Dir, Some Other}"
  shows "\<exists>p fs'. write_output fs nm content fmt out = Inr (p, fs')"
proof -
  define t where "t = out @ [output_file_name nm fmt]"
  have "find (\<lambda>q. map_of fs q \<noteq> None \<and> map_of fs q \<noteq> Some Dir) (prefixes out) = None"
    using assms(1) by (auto simp: find_None_iff)
  then obtain fs1 where fs1: "ensure_directory fs out = Inr fs1"
    by (simp add: ensure_directory_Inr)
  have "t \<notin> set (prefixes out)"
    by (auto simp: t_def prefix_def)
  then have "map_of fs1 t = map_of fs t"
    by (simp add: map_of_ensure_directory [OF fs1])
  then have "map_of fs1 t \<noteq> Some Dir \<and> map_of fs1 t \<noteq> Some Other"
    using assms(2) by (simp add: t_def)
  then show ?thesis
    using fs1 by (simp add: write_output_Inr t_def [symmetric])
qed

lemma write_output_correct_aux:
  assumes "write_output fs nm content fmt out = Inr (p, fs')"
  shows "p = out @ [output_file_name nm fmt]"
    and "is_dir fs' out"
    and "map_of fs' p = Some (File (Text content))"
    and "ensure_directory fs' out = Inr fs'"
    and "\<exists>fs''. write_output fs' nm content2 fmt out = Inr (p, fs'') \<and>
           map_of fs'' p = Some (File (Text content2))"
    and "q \<noteq> p \<Longrightarrow> q \<notin> set (prefixes out) \<Longrightarrow> map_of fs' q = map_of fs q"
proof -
  from assms obtain fs1 where fs1: "ensure_directory fs out = Inr fs1"
    and p: "p = out @ [output_file_name nm fmt]"
    and fs': "fs' = (p, File (Text content)) # fs1"
    by (auto simp: write_output_Inr)
  show "p = out @ [output_file_name nm fmt]"
    by (rule p)
  have pne: "p \<noteq> out" "p \<notin> set (prefixes out)"
    by (auto simp: p prefix_def)
  have look: "map_of fs' q = (if q = p then Some (File (Text content))
      else if q \<in> set (prefixes out) then Some Dir else map_of fs q)" for q
    by (simp add: fs' map_of_ensure_directory [OF fs1])
  show d: "is_dir fs' out"
    using pne by (simp add: is_dir_def look)
  show "map_of fs' p = Some (File (Text content))"
    by (simp add: look)
  show "q \<noteq> p \<Longrightarrow> q \<notin> set (prefixes out) \<Longrightarrow> map_of fs' q = map_of fs q"
    by (simp add: look)
  have all: "map_of fs' q = Some Dir" if "q \<in> set (prefixes out)" for q
    using that pne by (auto simp: look)
  have "find (\<lambda>q. map_of fs' q \<noteq> None \<and> map_of fs' q \<noteq> Some Dir) (prefixes out) = None"
    using all by (auto simp: find_None_iff)
  moreover have "filter (\<lambda>q. map_of fs' q = None) (prefixes out) = []"
    using all by (auto simp: filter_empty_conv)
  ultimately show e: "ensure_directory fs' out = Inr fs'"
    by (simp add: ensure_directory_Inr)
  have "write_output fs' nm content2 fmt out = Inr (p, (p, File (Text content2)) # fs')"
    using e p by (simp add: write_output_Inr look)
  then show "\<exists>fs''. write_output fs' nm content2 fmt out = Inr (p, fs'') \<and>
           map_of fs'' p = Some (File (Text content2))"
    by simp
qed


text \<open>
  C8. When \<^verbatim>\<open>write_output\<close> returns, the output directory exists (creating it again changes
  nothing), the file \<^verbatim>\<open><sanitized name>.<ext>\<close> in it, with \<^verbatim>\<open>ext\<close> \<^verbatim>\<open>md\<close> for markdown and
  \<^verbatim>\<open>json\<close> for the structured format, holds exactly the content, and a second write under the
  same name succeeds and leaves only the second content in that file.
\<close>

theorem write_output_last_write_wins:
  assumes "write_output fs nm content fmt out = Inr (p, fs')"
  shows "p = out @ [sanitize_filename nm @ ''.'' @ (if fmt = ''markdown'' then ''md'' else ''json'')]
       \<and> is_dir fs' out
       \<and> ensure_directory fs' out = Inr fs'
       \<and> map_of fs' p = Some (File (Text content))
       \<and> (\<exists>fs''. write_output fs' nm content2 fmt out = Inr (p, fs'') \<and>
             map_of fs'' p = Some (File (Text content2)))"
  using write_output_correct_aux(1-4) [OF assms] write_output_correct_aux(5) [OF assms, of content2]
  unfolding output_file_name_def by blast

theorem write_output_last_write_wins_witness:
  "write_output [([], Dir)] ''A/B'' ''first'' ''json'' [''outputs''] =
     Inr ([''outputs'', ''A_B.json''],
          [([''outputs'', ''A_B.json''], File (Text ''first'')), ([''outputs''], Dir), ([], Dir)])
   \<and> is_dir [([''outputs'', ''A_B.json''], File (Text ''first'')), ([''outputs''], Dir), ([], Dir)]
         [''outputs'']
   \<and> (\<exists>fs''. write_output
              [([''outputs'', ''A_B.json''], File (Text ''first'')), ([''outputs''], Dir), ([], Dir)]
              ''A/B'' ''second'' ''json'' [''outputs''] = Inr ([''outputs'', ''A_B.json''], fs'') \<and>
            map_of fs'' [''outputs'', ''A_B.json''] = Some (File (Text ''second'')))"
proof -
  have h: "write_output [([], Dir)] ''A/B'' ''first'' ''json'' [''outputs''] =
     Inr ([''outputs'', ''A_B.json''],
          [([''outputs'', ''A_B.json''], File (Text ''first'')), ([''outputs''], Dir), ([], Dir)])"
    by code_simp
  show ?thesis
    using h write_output_last_write_wins [OF h, of "''second''"] by blast
qed

text \<open>
  C10. For every output format other than the string \<^verbatim>\<open>markdown\<close>, recognised or not, the file
  \<^verbatim>\<open>write_output\<close> writes is named \<^verbatim>\<open><sanitized name>.json\<close>.
\<close>

theorem write_output_json_unless_markdown:
  assumes "fmt \<noteq> ''markdown''"
      and "write_output fs nm content fmt out = Inr (p, fs')"
  shows "p = out @ [sanitize_filename nm @ ''.json'']
       \<and> path_name p = sanitize_filename nm @ ''.json''
       \<and> map_of fs' p = Some (File (Text content))"
  using assms(1) write_output_correct_aux(1,3) [OF assms(2)]
  by (simp add: output_file_name_def path_name_def)

theorem write_output_json_unless_markdown_witness:
  "''yaml'' \<noteq> ''markdown''
   \<and> write_output [([], Dir)] '' r1 '' ''text'' ''yaml'' [''outputs''] =
       Inr ([''outputs'', ''r1.json''],
            [([''outputs'', ''r1.json''], File (Text ''text'')), ([''outputs''], Dir), ([], Dir)])
   \<and> path_name [''outputs'', ''r1.json''] = sanitize_filename '' r1 '' @ ''.json''"
proof -
  have n: "''yaml'' \<noteq> ''markdown''"
    by simp
  have h: "write_output [([], Dir)] '' r1 '' ''text'' ''yaml'' [''outputs''] =
       Inr ([''outputs'', ''r1.json''],
            [([''outputs'', ''r1.json''], File (Text ''text'')), ([''outputs''], Dir), ([], Dir)])"
    by code_simp
  show ?thesis
    using n h write_output_json_unless_markdown [OF n h] by blast
qed

section \<open>Properties of build_outputs_zip\<close>

lemma append_le_append_same: "(d @ xs \<le> d @ ys) \<longleftrightarrow> (xs \<le> (ys :: 'a :: linorder list))"
  by (induction d) simp_all

lemma sibling_eq: "p \<noteq> [] \<Longrightarrow> butlast p = d \<Longrightarrow> p = d @ [path_name p]"
  by (auto simp: path_name_def)

lemma sibling_le:
  assumes "p \<noteq> []" "butlast p = d" "q \<noteq> []" "butlast q = d"
  shows "p \<le> q \<longleftrightarrow> path_name p \<le> path_name q"
proof -
  have "p \<le> q \<longleftrightarrow> d @ [path_name p] \<le> d @ [path_name q]"
    using sibling_eq [OF assms(1,2)] sibling_eq [OF assms(3,4)] by simp
  then show ?thesis
    by (auto simp: append_le_append_same)
qed

lemma set_children: "set (children fs d) = {p \<in> fst ` set fs. p \<noteq> [] \<and> butlast p = d}"
  by (auto simp: children_def)

lemma children_sibling: "p \<in> set (children fs d) \<Longrightarrow> p \<noteq> [] \<and> butlast p = d"
  by (simp add: set_children)

lemma distinct_children: "distinct (children fs d)"
  by (simp add: children_def)

lemma sorted_names:
  assumes "sorted ps" and "\<forall>p \<in> set ps. p \<noteq> [] \<and> butlast p = d"
  shows "sorted (map path_name ps)"
proof -
  have "sorted_wrt (\<lambda>p q. path_name p \<le> path_name q) ps"
    using assms(1)
  proof (rule sorted_wrt_mono_rel [rotated])
    fix p q assume "p \<in> set ps" "q \<in> set ps" "p \<le> q"
    then show "path_name p \<le> path_name q"
      using assms(2) sibling_le [of p d q] by blast
  qed
  then show ?thesis
    by (simp add: sorted_map)
qed

lemma distinct_names:
  assumes "distinct ps" and "\<forall>p \<in> set ps. p \<noteq> [] \<and> butlast p = d"
  shows "distinct (map path_name ps)"
proof -
  have "inj_on path_name (set ps)"
  proof (rule inj_onI)
    fix p q assume "p \<in> set ps" "q \<in> set ps" "path_name p = path_name q"
    then show "p = q"
      using assms(2) sibling_eq [of p d] sibling_eq [of q d] by metis
  qed
  then show ?thesis
    using assms(1) by (simp add: distinct_map)
qed

lemma set_map_filter:
  "set (List.map_filter f xs) = {y. \<exists>x \<in> set xs. f x = Some y}"
  by (induction xs) (auto split: option.splits)

lemma is_file_iff: "is_file fs p \<longleftrightarrow> (\<exists>c. map_of fs p = Some (File c))"
proof (cases "map_of fs p")
  case None
  then show ?thesis by (simp add: is_file_def)
next
  case (Some n)
  then show ?thesis by (cases n) (simp_all add: is_file_def)
qed

lemma zip_member_Some:
  "(case map_of fs p of Some (File c) \<Rightarrow> Some (path_name p, c) | _ \<Rightarrow> None) = Some y \<longleftrightarrow>
   (\<exists>c. map_of fs p = Some (File c) \<and> y = (path_name p, c))"
proof (cases "map_of fs p")
  case None
  then show ?thesis by simp
next
  case (Some n)
  then show ?thesis by (cases n) auto
qed

lemma map_fst_zip_members:
  "map fst (zip_members fs d) = map path_name (filter (is_file fs) (sort (children fs d)))"
proof -
  have "map fst (List.map_filter (\<lambda>p. case map_of fs p of Some (File c) \<Rightarrow> Some (path_name p, c) | _ \<Rightarrow> None) ps)
      = map path_name (filter (is_file fs) ps)" for ps
    by (induction ps) (auto simp: is_file_def split: option.splits node.splits)
  then show ?thesis
    by (simp add: zip_members_def)
qed

lemma set_zip_members:
  "set (zip_members fs d) = {(n, c). map_of fs (d @ [n]) = Some (File c)}"
proof -
  have "(n, c) \<in> set (zip_members fs d) \<longleftrightarrow> map_of fs (d @ [n]) = Some (File c)" for n c
  proof
    assume "(n, c) \<in> set (zip_members fs d)"
    then obtain p where p: "p \<in> set (children fs d)" "map_of fs p = Some (File c)" "n = path_name p"
      unfolding zip_members_def set_map_filter zip_member_Some by auto
    then have "p = d @ [n]"
      using children_sibling [OF p(1)] sibling_eq by blast
    then show "map_of fs (d @ [n]) = Some (File c)"
      using p(2) by simp
  next
    assume a: "map_of fs (d @ [n]) = Some (File c)"
    then have "(d @ [n], File c) \<in> set fs"
      by (rule map_of_SomeD)
    then have "d @ [n] \<in> set (children fs d)"
      by (force simp: set_children)
    moreover have "path_name (d @ [n]) = n"
      by (simp add: path_name_def)
    ultimately show "(n, c) \<in> set (zip_members fs d)"
      unfolding zip_members_def set_map_filter zip_member_Some using a by force
  qed
  then show ?thesis by auto
qed

lemma sorted_zip_members: "sorted (map fst (zip_members fs d)) \<and> distinct (map fst (zip_members fs d))"
proof -
  let ?ps = "filter (is_file fs) (sort (children fs d))"
  have sib: "\<forall>p \<in> set ?ps. p \<noteq> [] \<and> butlast p = d"
    using children_sibling by auto
  have "sorted ?ps" "distinct ?ps"
    by (simp_all add: sorted_wrt_filter distinct_children)
  then show ?thesis
    using sorted_names [OF _ sib] distinct_names [OF _ sib] by (simp add: map_fst_zip_members)
qed

lemma build_outputs_zip_Inr:
  "build_outputs_zip fs out zp = Inr (z, fs') \<longleftrightarrow>
     (\<exists>fs1 fs2. ensure_directory fs out = Inr fs1 \<and> write_file fs1 zp (Archive []) = Inr fs2 \<and>
        z = zp \<and> fs' = (zp, File (Archive (zip_members fs2 out))) # fs2)"
  by (auto simp: build_outputs_zip_def split: sum.splits)

lemma build_outputs_zip_aux:
  assumes "build_outputs_zip fs out zp = Inr (z, fs')"
  shows "\<exists>entries. z = zp \<and> map_of fs' zp = Some (File (Archive entries))
           \<and> sorted (map fst entries) \<and> distinct (map fst entries)
           \<and> set (map fst entries) = {n. is_file fs' (out @ [n])}
           \<and> (butlast zp \<noteq> out \<longrightarrow> set entries = {(n, c). map_of fs (out @ [n]) = Some (File c)})"
proof -
  from assms obtain fs1 fs2 where fs1: "ensure_directory fs out = Inr fs1"
    and fs2: "write_file fs1 zp (Archive []) = Inr fs2" and z: "z = zp"
    and fs': "fs' = (zp, File (Archive (zip_members fs2 out))) # fs2"
    by (auto simp: build_outputs_zip_Inr)
  let ?es = "zip_members fs2 out"
  have fs2_eq: "fs2 = (zp, File (Archive [])) # fs1"
    using fs2 by (simp add: write_file_Inr)
  have child: "out @ [n] \<notin> set (prefixes out)" for n
    by (auto simp: prefix_def)
  have names: "set (map fst ?es) = {n. is_file fs' (out @ [n])}"
  proof -
    have "set (map fst ?es) = {n. \<exists>c. map_of fs2 (out @ [n]) = Some (File c)}"
      by (force simp: set_zip_members)
    also have "\<dots> = {n. is_file fs' (out @ [n])}"
      by (auto simp: fs' fs2_eq is_file_iff)
    finally show ?thesis .
  qed
  have init: "set ?es = {(n, c). map_of fs (out @ [n]) = Some (File c)}" if "butlast zp \<noteq> out"
  proof -
    have ne: "out @ [n] \<noteq> zp" for n
      using that by auto
    have "map_of fs2 (out @ [n]) = map_of fs (out @ [n])" for n
      using child [of n] ne [of n] by (simp add: fs2_eq map_of_ensure_directory [OF fs1])
    then show ?thesis
      by (simp add: set_zip_members)
  qed
  have "map_of fs' zp = Some (File (Archive ?es))"
    by (simp add: fs')
  with z names init sorted_zip_members [of fs2 out] show ?thesis
    by blast
qed

text \<open>
  C7. The archive that \<^verbatim>\<open>build_outputs_zip\<close> writes has one entry for each regular file
  directly in the output directory and no other entry; an entry is named by the bare file
  name; the names are in ascending order without repetition. Unless the archive itself is
  created inside the output directory, the entries are the files that were there before
  the call, with their contents. A directory holding \<^verbatim>\<open>x.md\<close> and \<^verbatim>\<open>a.json\<close> gives the two
  entries \<^verbatim>\<open>a.json\<close>, \<^verbatim>\<open>x.md\<close> in this order.
\<close>

theorem build_outputs_zip_entries:
  assumes "build_outputs_zip fs out zp = Inr (z, fs')"
  shows "(\<exists>entries. z = zp \<and> map_of fs' zp = Some (File (Archive entries))
           \<and> sorted (map fst entries) \<and> distinct (map fst entries)
           \<and> set (map fst entries) = {n. is_file fs' (out @ [n])}
           \<and> (butlast zp \<noteq> out \<longrightarrow>
                set entries = {(n, c). map_of fs (out @ [n]) = Some (File c)}))
       \<and> (\<exists>fs2. build_outputs_zip
             [([], Dir), ([''outputs''], Dir), ([''outputs'', ''sub''], Dir),
              ([''outputs'', ''x.md''], File (Text ''# x'')),
              ([''outputs'', ''a.json''], File (Text ''{}'')),
              ([''outputs'', ''sub'', ''k.md''], File (Text ''k''))]
             [''outputs''] [''outputs.zip'']
           = Inr ([''outputs.zip''],
                  ([''outputs.zip''],
                   File (Archive [(''a.json'', Text ''{}''), (''x.md'', Text ''# x'')])) # fs2))"
proof -
  have "build_outputs_zip
             [([], Dir), ([''outputs''], Dir), ([''outputs'', ''sub''], Dir),
              ([''outputs'', ''x.md''], File (Text ''# x'')),
              ([''outputs'', ''a.json''], File (Text ''{}'')),
              ([''outputs'', ''sub'', ''k.md''], File (Text ''k''))]
             [''outputs''] [''outputs.zip'']
           = Inr ([''outputs.zip''],
                  ([''outputs.zip''],
                   File (Archive [(''a.json'', Text ''{}''), (''x.md'', Text ''# x'')])) #
                  ([''outputs.zip''], File (Archive [])) #
                  [([], Dir), ([''outputs''], Dir), ([''outputs'', ''sub''], Dir),
                   ([''outputs'', ''x.md''], File (Text ''# x'')),
                   ([''outputs'', ''a.json''], File (Text ''{}'')),
                   ([''outputs'', ''sub'', ''k.md''], File (Text ''k''))])"
    by code_simp
  then show ?thesis
    using build_outputs_zip_aux [OF assms] by blast
qed

theorem build_outputs_zip_entries_witness:
  "build_outputs_zip
     [([], Dir), ([''out''], Dir), ([''out'', ''b.md''], File (Text ''b'')),
      ([''out'', ''a.md''], File (Text ''a''))]
     [''out''] [''out.zip'']
   = Inr ([''out.zip''],
          [([''out.zip''], File (Archive [(''a.md'', Text ''a''), (''b.md'', Text ''b'')])),
           ([''out.zip''], File (Archive [])),
           ([], Dir), ([''out''], Dir), ([''out'', ''b.md''], File (Text ''b'')),
           ([''out'', ''a.md''], File (Text ''a''))])
   \<and> butlast [''out.zip''] \<noteq> [''out'']
   \<and> (\<exists>entries.
         map_of [([''out.zip''], File (Archive [(''a.md'', Text ''a''), (''b.md'', Text ''b'')])),
                 ([''out.zip''], File (Archive [])),
                 ([], Dir), ([''out''], Dir), ([''out'', ''b.md''], File (Text ''b'')),
                 ([''out'', ''a.md''], File (Text ''a''))] [''out.zip'']
           = Some (File (Archive entries))
         \<and> sorted (map fst entries) \<and> distinct (map fst entries)
         \<and> set entries =
             {(n, c). map_of [([], Dir), ([''out''], Dir), ([''out'', ''b.md''], File (Text ''b'')),
                       ([''out'', ''a.md''], File (Text ''a''))] ([''out''] @ [n]) = Some (File c)})"
proof -
  have h: "build_outputs_zip
     [([], Dir), ([''out''], Dir), ([''out'', ''b.md''], File (Text ''b'')),
      ([''out'', ''a.md''], File (Text ''a''))]
     [''out''] [''out.zip'']
   = Inr ([''out.zip''],
          [([''out.zip''], File (Archive [(''a.md'', Text ''a''), (''b.md'', Text ''b'')])),
           ([''out.zip''], File (Archive [])),
           ([], Dir), ([''out''], Dir), ([''out'', ''b.md''], File (Text ''b'')),
           ([''out'', ''a.md''], File (Text ''a''))])"
    by code_simp
  have n: "butlast [''out.zip''] \<noteq> [''out'']"
    by simp
  show ?thesis
    using h n build_outputs_zip_entries [OF h] by blast
qed

section \<open>Properties of discover_receipts\<close>

lemma collect_receipts_set:
  "set (collect_receipts fs es) =
     {\<lparr>name = path_name e, pages = collect_pages fs e\<rparr> | e.
        e \<in> set es \<and> is_dir fs e \<and> collect_pages fs e \<noteq> []}"
  by (induction es) (auto simp: Let_def)

lemma collect_receipts_names:
  "map name (collect_receipts fs es) =
     map path_name (filter (\<lambda>e. is_dir fs e \<and> collect_pages fs e \<noteq> []) es)"
  by (induction es) (auto simp: Let_def)

lemma discover_receipts_Inr:
  "discover_receipts fs root_dir = Inr gs \<longleftrightarrow>
     is_dir fs root_dir \<and> gs = collect_receipts fs (sort (children fs root_dir))"
proof (cases "map_of fs root_dir")
  case None
  then show ?thesis by (simp add: discover_receipts_def iterdir_def is_dir_def)
next
  case (Some n)
  then show ?thesis
    by (cases n) (auto simp: discover_receipts_def iterdir_def is_dir_def)
qed

lemma set_collect_pages:
  "set (collect_pages fs e) =
     {p \<in> set (children fs e). is_file fs p \<and> path_suffix p \<in> PNG_EXTENSIONS}"
  by (auto simp: collect_pages_def)

lemma sorted_collect_pages: "sorted (map page_sort_key (collect_pages fs e))"
  unfolding collect_pages_def by (rule sorted_filter) (rule sorted_sort_key)

lemma discover_receipts_aux:
  assumes "discover_receipts fs root_dir = Inr gs"
  shows "set gs = {\<lparr>name = path_name e, pages = collect_pages fs e\<rparr> | e.
           e \<in> set (children fs root_dir) \<and> is_dir fs e \<and> collect_pages fs e \<noteq> []}"
    and "sorted (map name gs)" and "distinct (map name gs)"
proof -
  let ?es = "sort (children fs root_dir)"
  let ?ds = "filter (\<lambda>e. is_dir fs e \<and> collect_pages fs e \<noteq> []) ?es"
  from assms have gs: "gs = collect_receipts fs ?es"
    by (simp add: discover_receipts_Inr)
  show "set gs = {\<lparr>name = path_name e, pages = collect_pages fs e\<rparr> | e.
           e \<in> set (children fs root_dir) \<and> is_dir fs e \<and> collect_pages fs e \<noteq> []}"
    by (simp add: gs collect_receipts_set)
  have sib: "\<forall>p \<in> set ?ds. p \<noteq> [] \<and> butlast p = root_dir"
    using children_sibling by auto
  have "sorted ?ds" "distinct ?ds"
    by (simp_all add: sorted_wrt_filter distinct_children)
  then show "sorted (map name gs)" "distinct (map name gs)"
    using sorted_names [OF _ sib] distinct_names [OF _ sib]
    by (simp_all add: gs collect_receipts_names)
qed

text \<open>
  C4. Every group that \<^verbatim>\<open>discover_receipts\<close> returns has at least one page; the groups are
  the subdirectories of the root that have a qualifying page, so a subdirectory without one
  is left out; the group names are in ascending order (strings compared code point by
  code point) and no name occurs twice.
\<close>

theorem discover_receipts_groups:
  assumes "discover_receipts fs root_dir = Inr gs"
  shows "(\<forall>g \<in> set gs. pages g \<noteq> [])
       \<and> set gs = {\<lparr>name = path_name e, pages = collect_pages fs e\<rparr> | e.
           e \<in> set (children fs root_dir) \<and> is_dir fs e \<and> collect_pages fs e \<noteq> []}
       \<and> sorted (map name gs)
       \<and> distinct (map name gs)"
  using discover_receipts_aux [OF assms] by auto

theorem discover_receipts_groups_witness:
  "discover_receipts
     [([], Dir), ([''w''], Dir), ([''w'', ''r2''], Dir),
      ([''w'', ''r2'', ''p1.png''], File (Text ''a'')), ([''w'', ''r1''], Dir),
      ([''w'', ''r1'', ''s.PNG''], File (Text ''b'')), ([''w'', ''empty''], Dir),
      ([''w'', ''empty'', ''notes.txt''], File (Text ''c'')), ([''w'', ''top.png''], File (Text ''d''))]
     [''w'']
   = Inr [\<lparr>name = ''r1'', pages = [[''w'', ''r1'', ''s.PNG'']]\<rparr>,
          \<lparr>name = ''r2'', pages = [[''w'', ''r2'', ''p1.png'']]\<rparr>]
   \<and> sorted (map name [\<lparr>name = ''r1'', pages = [[''w'', ''r1'', ''s.PNG'']]\<rparr>,
                         \<lparr>name = ''r2'', pages = [[''w'', ''r2'', ''p1.png'']]\<rparr>])
   \<and> distinct (map name [\<lparr>name = ''r1'', pages = [[''w'', ''r1'', ''s.PNG'']]\<rparr>,
                           \<lparr>name = ''r2'', pages = [[''w'', ''r2'', ''p1.png'']]\<rparr>])"
proof -
  have h: "discover_receipts
     [([], Dir), ([''w''], Dir), ([''w'', ''r2''], Dir),
      ([''w'', ''r2'', ''p1.png''], File (Text ''a'')), ([''w'', ''r1''], Dir),
      ([''w'', ''r1'', ''s.PNG''], File (Text ''b'')), ([''w'', ''empty''], Dir),
      ([''w'', ''empty'', ''notes.txt''], File (Text ''c'')), ([''w'', ''top.png''], File (Text ''d''))]
     [''w'']
   = Inr [\<lparr>name = ''r1'', pages = [[''w'', ''r1'', ''s.PNG'']]\<rparr>,
          \<lparr>name = ''r2'', pages = [[''w'', ''r2'', ''p1.png'']]\<rparr>]"
    by code_simp
  show ?thesis
    using h discover_receipts_groups [OF h] by blast
qed

lemma png_extensions: "s \<in> PNG_EXTENSIONS \<longleftrightarrow> s = ''.png'' \<or> s = ''.PNG''"
  by (simp add: PNG_EXTENSIONS_def)

text \<open>
  C3 (as amended). A regular file in an immediate subdirectory of the root is a page of that
  subdirectory's group if and only if its extension is exactly \<^verbatim>\<open>.png\<close> or exactly \<^verbatim>\<open>.PNG\<close>.
\<close>

theorem discover_receipts_png_exact:
  assumes "discover_receipts fs root_dir = Inr gs"
      and "d \<in> set (children fs root_dir)" and "is_dir fs d"
      and "p \<in> set (children fs d)" and "is_file fs p"
  shows "(\<exists>g \<in> set gs. name g = path_name d \<and> p \<in> set (pages g)) \<longleftrightarrow>
         (path_suffix p = ''.png'' \<or> path_suffix p = ''.PNG'')"
proof
  assume "\<exists>g \<in> set gs. name g = path_name d \<and> p \<in> set (pages g)"
  then obtain g where g: "g \<in> set gs" "name g = path_name d" "p \<in> set (pages g)"
    by blast
  from g(1) obtain e where e: "g = \<lparr>name = path_name e, pages = collect_pages fs e\<rparr>"
      "e \<in> set (children fs root_dir)"
    unfolding discover_receipts_aux(1) [OF assms(1)] by blast
  then have "p \<in> set (collect_pages fs e)"
    using g(3) by simp
  then show "path_suffix p = ''.png'' \<or> path_suffix p = ''.PNG''"
    by (simp add: set_collect_pages png_extensions)
next
  assume "path_suffix p = ''.png'' \<or> path_suffix p = ''.PNG''"
  then have p: "p \<in> set (collect_pages fs d)"
    using assms(4,5) by (simp add: set_collect_pages png_extensions)
  then have "collect_pages fs d \<noteq> []"
    by auto
  then have "\<lparr>name = path_name d, pages = collect_pages fs d\<rparr> \<in> set gs"
    unfolding discover_receipts_aux(1) [OF assms(1)] using assms(2,3) by blast
  then show "\<exists>g \<in> set gs. name g = path_name d \<and> p \<in> set (pages g)"
    using p by force
qed

theorem discover_receipts_png_exact_witness:
  "discover_receipts
     [([], Dir), ([''w''], Dir), ([''w'', ''r1''], Dir),
      ([''w'', ''r1'', ''a.Png''], File (Text ''a'')), ([''w'', ''r1'', ''b.png''], File (Text ''b''))]
     [''w'']
   = Inr [\<lparr>name = ''r1'', pages = [[''w'', ''r1'', ''b.png'']]\<rparr>]
   \<and> path_suffix [''w'', ''r1'', ''b.png''] = ''.png''
   \<and> (\<exists>g \<in> set [\<lparr>name = ''r1'', pages = [[''w'', ''r1'', ''b.png'']]\<rparr>].
         name g = path_name [''w'', ''r1''] \<and> [''w'', ''r1'', ''b.png''] \<in> set (pages g))"
proof -
  let ?fs = "[([], Dir), ([''w''], Dir), ([''w'', ''r1''], Dir),
      ([''w'', ''r1'', ''a.Png''], File (Text ''a'')), ([''w'', ''r1'', ''b.png''], File (Text ''b''))]"
  have h: "discover_receipts ?fs [''w''] = Inr [\<lparr>name = ''r1'', pages = [[''w'', ''r1'', ''b.png'']]\<rparr>]"
    by code_simp
  have d: "[''w'', ''r1''] \<in> set (children ?fs [''w''])" "is_dir ?fs [''w'', ''r1'']"
    by (simp_all add: children_def is_dir_def)
  have p: "[''w'', ''r1'', ''b.png''] \<in> set (children ?fs [''w'', ''r1''])"
      "is_file ?fs [''w'', ''r1'', ''b.png'']"
    by (simp_all add: children_def is_file_def)
  have s: "path_suffix [''w'', ''r1'', ''b.png''] = ''.png''"
    by code_simp
  show ?thesis
    using h s discover_receipts_png_exact [OF h d p] by blast
qed

text \<open>
  C3 as stated fails: \<^verbatim>\<open>a.Png\<close> is a regular file in an immediate subdirectory and its
  extension equals \<^verbatim>\<open>.png\<close> when case is ignored, yet it is not a page.
\<close>

theorem discover_receipts_mixed_case_excluded:
  "[''w'', ''r1''] \<in> set (children
       [([], Dir), ([''w''], Dir), ([''w'', ''r1''], Dir),
        ([''w'', ''r1'', ''a.Png''], File (Text ''a'')),
        ([''w'', ''r1'', ''b.png''], File (Text ''b''))] [''w''])
   \<and> is_dir [([], Dir), ([''w''], Dir), ([''w'', ''r1''], Dir),
           ([''w'', ''r1'', ''a.Png''], File (Text ''a'')),
           ([''w'', ''r1'', ''b.png''], File (Text ''b''))] [''w'', ''r1'']
   \<and> [''w'', ''r1'', ''a.Png''] \<in> set (children
       [([], Dir), ([''w''], Dir), ([''w'', ''r1''], Dir),
        ([''w'', ''r1'', ''a.Png''], File (Text ''a'')),
        ([''w'', ''r1'', ''b.png''], File (Text ''b''))] [''w'', ''r1''])
   \<and> is_file [([], Dir), ([''w''], Dir), ([''w'', ''r1''], Dir),
           ([''w'', ''r1'', ''a.Png''], File (Text ''a'')),
           ([''w'', ''r1'', ''b.png''], File (Text ''b''))] [''w'', ''r1'', ''a.Png'']
   \<and> map lower_char (path_suffix [''w'', ''r1'', ''a.Png'']) = ''.png''
   \<and> discover_receipts
         [([], Dir), ([''w''], Dir), ([''w'', ''r1''], Dir),
          ([''w'', ''r1'', ''a.Png''], File (Text ''a'')),
          ([''w'', ''r1'', ''b.png''], File (Text ''b''))] [''w'']
       = Inr [\<lparr>name = ''r1'', pages = [[''w'', ''r1'', ''b.png'']]\<rparr>]
   \<and> [''w'', ''r1'', ''a.Png''] \<notin> set (pages \<lparr>name = ''r1'', pages = [[''w'', ''r1'', ''b.png'']]\<rparr>)"
proof -
  let ?fs = "[([], Dir), ([''w''], Dir), ([''w'', ''r1''], Dir),
      ([''w'', ''r1'', ''a.Png''], File (Text ''a'')), ([''w'', ''r1'', ''b.png''], File (Text ''b''))]"
  have "discover_receipts ?fs [''w''] = Inr [\<lparr>name = ''r1'', pages = [[''w'', ''r1'', ''b.png'']]\<rparr>]"
    by code_simp
  moreover have "map lower_char (path_suffix [''w'', ''r1'', ''a.Png'']) = ''.png''"
    by code_simp
  moreover have "is_dir ?fs [''w'', ''r1'']" "is_file ?fs [''w'', ''r1'', ''a.Png'']"
    by (simp_all add: is_dir_def is_file_def)
  moreover have "[''w'', ''r1''] \<in> set (children ?fs [''w''])"
      "[''w'', ''r1'', ''a.Png''] \<in> set (children ?fs [''w'', ''r1''])"
    by (simp_all add: children_def)
  moreover have "[''w'', ''r1'', ''a.Png''] \<notin> set (pages \<lparr>name = ''r1'', pages = [[''w'', ''r1'', ''b.png'']]\<rparr>)"
    by simp
  ultimately show ?thesis
    by (intro conjI)
qed

section \<open>Properties of the page ordering key\<close>

lemma lower_char_cases:
  "lower_char c = c \<or>
   (c, lower_char c) \<in> set (zip ''ABCDEFGHIJKLMNOPQRSTUVWXYZ'' ''abcdefghijklmnopqrstuvwxyz'')"
proof (cases "map_of (zip ''ABCDEFGHIJKLMNOPQRSTUVWXYZ'' ''abcdefghijklmnopqrstuvwxyz'') c")
  case None
  then have "lower_char c = c"
    unfolding lower_char_def by (simp only: option.case)
  then show ?thesis ..
next
  case (Some l)
  then have "lower_char c = l"
    unfolding lower_char_def by (simp only: option.case)
  moreover have "(c, l) \<in> set (zip ''ABCDEFGHIJKLMNOPQRSTUVWXYZ'' ''abcdefghijklmnopqrstuvwxyz'')"
    using Some by (rule map_of_SomeD)
  ultimately show ?thesis by simp
qed

lemma lower_char_p: "lower_char c = CHR ''p'' \<longleftrightarrow> c = CHR ''p'' \<or> c = CHR ''P''"
proof
  assume a: "lower_char c = CHR ''p''"
  from lower_char_cases [of c] show "c = CHR ''p'' \<or> c = CHR ''P''"
    unfolding a by auto
next
  have "lower_char CHR ''p'' = CHR ''p''" "lower_char CHR ''P'' = CHR ''p''"
    by code_simp+
  then show "c = CHR ''p'' \<or> c = CHR ''P'' \<Longrightarrow> lower_char c = CHR ''p''"
    by auto
qed

lemma lower_char_a: "lower_char c = CHR ''a'' \<longleftrightarrow> c = CHR ''a'' \<or> c = CHR ''A''"
proof
  assume a: "lower_char c = CHR ''a''"
  from lower_char_cases [of c] show "c = CHR ''a'' \<or> c = CHR ''A''"
    unfolding a by auto
next
  have "lower_char CHR ''a'' = CHR ''a''" "lower_char CHR ''A'' = CHR ''a''"
    by code_simp+
  then show "c = CHR ''a'' \<or> c = CHR ''A'' \<Longrightarrow> lower_char c = CHR ''a''"
    by auto
qed

lemma lower_char_g: "lower_char c = CHR ''g'' \<longleftrightarrow> c = CHR ''g'' \<or> c = CHR ''G''"
proof
  assume a: "lower_char c = CHR ''g''"
  from lower_char_cases [of c] show "c = CHR ''g'' \<or> c = CHR ''G''"
    unfolding a by auto
next
  have "lower_char CHR ''g'' = CHR ''g''" "lower_char CHR ''G'' = CHR ''g''"
    by code_simp+
  then show "c = CHR ''g'' \<or> c = CHR ''G'' \<Longrightarrow> lower_char c = CHR ''g''"
    by auto
qed

lemma lower_char_e: "lower_char c = CHR ''e'' \<longleftrightarrow> c = CHR ''e'' \<or> c = CHR ''E''"
proof
  assume a: "lower_char c = CHR ''e''"
  from lower_char_cases [of c] show "c = CHR ''e'' \<or> c = CHR ''E''"
    unfolding a by auto
next
  have "lower_char CHR ''e'' = CHR ''e''" "lower_char CHR ''E'' = CHR ''e''"
    by code_simp+
  then show "c = CHR ''e'' \<or> c = CHR ''E'' \<Longrightarrow> lower_char c = CHR ''e''"
    by auto
qed

lemmas lower_char_page = lower_char_p lower_char_a lower_char_g lower_char_e

lemma page_word:
  "map lower_char w = ''page'' \<longleftrightarrow>
     (\<exists>c1 c2 c3 c4. w = [c1, c2, c3, c4] \<and> (c1 = CHR ''p'' \<or> c1 = CHR ''P'') \<and>
        (c2 = CHR ''a'' \<or> c2 = CHR ''A'') \<and> (c3 = CHR ''g'' \<or> c3 = CHR ''G'') \<and>
        (c4 = CHR ''e'' \<or> c4 = CHR ''E''))"
proof
  assume a: "map lower_char w = ''page''"
  then obtain c1 w1 where 1: "w = c1 # w1" "lower_char c1 = CHR ''p''" "map lower_char w1 = ''age''"
    by (cases w) simp_all
  from 1(3) obtain c2 w2 where 2: "w1 = c2 # w2" "lower_char c2 = CHR ''a''" "map lower_char w2 = ''ge''"
    by (cases w1) simp_all
  from 2(3) obtain c3 w3 where 3: "w2 = c3 # w3" "lower_char c3 = CHR ''g''" "map lower_char w3 = ''e''"
    by (cases w2) simp_all
  from 3(3) obtain c4 w4 where 4: "w3 = c4 # w4" "lower_char c4 = CHR ''e''" "map lower_char w4 = []"
    by (cases w3) simp_all
  have "w = [c1, c2, c3, c4]"
    using 1(1) 2(1) 3(1) 4(1,3) by simp
  then show "\<exists>c1 c2 c3 c4. w = [c1, c2, c3, c4] \<and> (c1 = CHR ''p'' \<or> c1 = CHR ''P'') \<and>
        (c2 = CHR ''a'' \<or> c2 = CHR ''A'') \<and> (c3 = CHR ''g'' \<or> c3 = CHR ''G'') \<and>
        (c4 = CHR ''e'' \<or> c4 = CHR ''E'')"
    using 1(2) 2(2) 3(2) 4(2) unfolding lower_char_page by blast
next
  assume "\<exists>c1 c2 c3 c4. w = [c1, c2, c3, c4] \<and> (c1 = CHR ''p'' \<or> c1 = CHR ''P'') \<and>
        (c2 = CHR ''a'' \<or> c2 = CHR ''A'') \<and> (c3 = CHR ''g'' \<or> c3 = CHR ''G'') \<and>
        (c4 = CHR ''e'' \<or> c4 = CHR ''E'')"
  then obtain c1 c2 c3 c4 where "w = [c1, c2, c3, c4]" "lower_char c1 = CHR ''p''"
      "lower_char c2 = CHR ''a''" "lower_char c3 = CHR ''g''" "lower_char c4 = CHR ''e''"
    unfolding lower_char_page by blast
  then show "map lower_char w = ''page''"
    by simp
qed

lemma page_prefix_Some:
  "page_prefix s = Some r \<longleftrightarrow> (\<exists>w. s = w @ r \<and> map lower_char w = ''page'')"
proof
  assume "page_prefix s = Some r"
  then obtain c1 c2 c3 c4 where "s = [c1, c2, c3, c4] @ r"
    "(c1 = CHR ''p'' \<or> c1 = CHR ''P'') \<and> (c2 = CHR ''a'' \<or> c2 = CHR ''A'') \<and>
     (c3 = CHR ''g'' \<or> c3 = CHR ''G'') \<and> (c4 = CHR ''e'' \<or> c4 = CHR ''E'')"
    by (auto simp: page_prefix_def split: list.splits if_splits)
  then show "\<exists>w. s = w @ r \<and> map lower_char w = ''page''"
    unfolding page_word by blast
next
  assume "\<exists>w. s = w @ r \<and> map lower_char w = ''page''"
  then obtain c1 c2 c3 c4 where "s = [c1, c2, c3, c4] @ r"
    "(c1 = CHR ''p'' \<or> c1 = CHR ''P'') \<and> (c2 = CHR ''a'' \<or> c2 = CHR ''A'') \<and>
     (c3 = CHR ''g'' \<or> c3 = CHR ''G'') \<and> (c4 = CHR ''e'' \<or> c4 = CHR ''E'')"
    unfolding page_word by blast
  then show "page_prefix s = Some r"
    by (simp add: page_prefix_def)
qed

lemma is_digit_not_sep: "is_digit c \<Longrightarrow> c \<noteq> CHR ''_'' \<and> c \<noteq> CHR ''-''"
  by (auto simp: is_digit_def)

lemma skip_sep_cases:
  "\<exists>sep. r = sep @ skip_sep r \<and> (sep = [] \<or> sep = ''_'' \<or> sep = ''-'')"
  by (cases r) (auto simp: skip_sep_def)

lemma skip_sep_digits:
  assumes "sep = [] \<or> sep = ''_'' \<or> sep = ''-''" and "d \<noteq> []" and "list_all is_digit d"
  shows "skip_sep (sep @ d @ rest) = d @ rest"
proof -
  obtain c d' where d: "d = c # d'" "is_digit c"
    using assms(2,3) by (cases d) auto
  then have "c \<noteq> CHR ''_''" "c \<noteq> CHR ''-''"
    using is_digit_not_sep by blast+
  then show ?thesis
    using assms(1) d by (auto simp: skip_sep_def)
qed

lemma match_page_at_Some:
  assumes "match_page_at t = Some d"
  shows "\<exists>rest. page_occurs [] d rest t \<and> (rest = [] \<or> \<not> is_digit (hd rest))"
proof -
  from assms obtain r where r: "page_prefix t = Some r"
    and d: "d = takeWhile is_digit (skip_sep r)" "d \<noteq> []"
    by (auto simp: match_page_at_def Let_def split: option.splits if_splits)
  from r have "\<exists>w. t = w @ r \<and> map lower_char w = ''page''"
    by (simp only: page_prefix_Some)
  then obtain w where w: "t = w @ r" "map lower_char w = ''page''"
    by (elim exE conjE)
  obtain sep where sep: "r = sep @ skip_sep r" "sep = [] \<or> sep = ''_'' \<or> sep = ''-''"
    using skip_sep_cases by blast
  let ?rest = "dropWhile is_digit (skip_sep r)"
  have "skip_sep r = d @ ?rest"
    by (simp add: d(1))
  then have "t = [] @ w @ sep @ d @ ?rest"
    using w(1) sep(1) by simp
  moreover have "list_all is_digit d"
    by (auto simp: d(1) list_all_iff dest: set_takeWhileD)
  ultimately have "t = [] @ w @ sep @ d @ ?rest \<and> map lower_char w = ''page'' \<and>
      (sep = [] \<or> sep = ''_'' \<or> sep = ''-'') \<and> d \<noteq> [] \<and> list_all is_digit d"
    using w(2) sep(2) d(2) by (intro conjI)
  then have "page_occurs [] d ?rest t"
    unfolding page_occurs_def by (intro exI)
  moreover have "?rest = [] \<or> \<not> is_digit (hd ?rest)"
    using hd_dropWhile [of is_digit "skip_sep r"] by blast
  ultimately show ?thesis by blast
qed

lemma match_page_at_occurs:
  assumes "page_occurs [] d rest t"
  shows "match_page_at t \<noteq> None"
proof -
  from assms obtain w sep where t: "t = w @ sep @ d @ rest" and w: "map lower_char w = ''page''"
    and sep: "sep = [] \<or> sep = ''_'' \<or> sep = ''-''" and d: "d \<noteq> []" "list_all is_digit d"
    unfolding page_occurs_def append_Nil by (elim exE conjE)
  have "\<exists>w. t = w @ sep @ d @ rest \<and> map lower_char w = ''page''"
    using t w by (intro exI conjI)
  then have "page_prefix t = Some (sep @ d @ rest)"
    by (simp only: page_prefix_Some)
  moreover have "skip_sep (sep @ d @ rest) = d @ rest"
    using sep d by (rule skip_sep_digits)
  moreover have "takeWhile is_digit (d @ rest) \<noteq> []"
    using d by (cases d) auto
  ultimately show ?thesis
    by (simp add: match_page_at_def Let_def)
qed

lemma match_page_at_Nil: "match_page_at [] = None"
  by (simp add: match_page_at_def page_prefix_def)

lemma page_search_Some:
  "page_search s = Some d \<Longrightarrow>
     \<exists>pre t. s = pre @ t \<and> match_page_at t = Some d \<and>
       (\<forall>pre' t'. s = pre' @ t' \<and> length pre' < length pre \<longrightarrow> match_page_at t' = None)"
proof (induction s)
  case Nil
  then show ?case by simp
next
  case (Cons c s)
  show ?case
  proof (cases "match_page_at (c # s)")
    case (Some d')
    then have "match_page_at (c # s) = Some d"
      using Cons.prems by simp
    then have "c # s = [] @ (c # s) \<and> match_page_at (c # s) = Some d \<and>
       (\<forall>pre' t'. c # s = pre' @ t' \<and> length pre' < length ([] :: string) \<longrightarrow> match_page_at t' = None)"
      by simp
    then show ?thesis by blast
  next
    case None
    then have "page_search s = Some d"
      using Cons.prems by simp
    then obtain pre t where pt: "s = pre @ t" "match_page_at t = Some d"
      and least: "\<forall>pre' t'. s = pre' @ t' \<and> length pre' < length pre \<longrightarrow> match_page_at t' = None"
      using Cons.IH by blast
    have "match_page_at t' = None" if "c # s = pre' @ t'" "length pre' < length (c # pre)" for pre' t'
    proof (cases pre')
      case Nil
      then show ?thesis using that(1) None by simp
    next
      case (Cons a pre'')
      then have "s = pre'' @ t'" "length pre'' < length pre"
        using that by simp_all
      then show ?thesis using least by blast
    qed
    then have "c # s = (c # pre) @ t \<and> match_page_at t = Some d \<and>
       (\<forall>pre' t'. c # s = pre' @ t' \<and> length pre' < length (c # pre) \<longrightarrow> match_page_at t' = None)"
      using pt by simp
    then show ?thesis by blast
  qed
qed

lemma page_search_None:
  "page_search s = None \<Longrightarrow> s = pre @ t \<Longrightarrow> match_page_at t = None"
proof (induction s arbitrary: pre)
  case Nil
  then show ?case by (simp add: match_page_at_Nil)
next
  case (Cons c s)
  from Cons.prems(1) have m: "match_page_at (c # s) = None" and ps: "page_search s = None"
    by (simp_all split: option.splits)
  show ?case
  proof (cases pre)
    case Nil
    then show ?thesis using Cons.prems(2) m by simp
  next
    case (Cons a pre')
    then have "s = pre' @ t"
      using Cons.prems(2) by simp
    then show ?thesis
      using Cons.IH [OF ps] by blast
  qed
qed

lemma page_occurs_shift: "page_occurs pre d rest (pre @ t) \<longleftrightarrow> page_occurs [] d rest t"
  by (simp add: page_occurs_def)

lemma page_occurs_split: "page_occurs pre d rest s \<Longrightarrow> \<exists>t. s = pre @ t"
  by (auto simp: page_occurs_def)

lemma page_search_leftmost:
  assumes "page_search s = Some d"
  shows "\<exists>pre rest. page_occurs pre d rest s \<and> (rest = [] \<or> \<not> is_digit (hd rest)) \<and>
           (\<forall>pre' d' rest'. page_occurs pre' d' rest' s \<longrightarrow> length pre \<le> length pre')"
proof -
  from page_search_Some [OF assms] obtain pre t where pt: "s = pre @ t" "match_page_at t = Some d"
    and least: "\<forall>pre' t'. s = pre' @ t' \<and> length pre' < length pre \<longrightarrow> match_page_at t' = None"
    by blast
  from match_page_at_Some [OF pt(2)] obtain rest where
    rest: "page_occurs [] d rest t" "rest = [] \<or> \<not> is_digit (hd rest)"
    by blast
  have occ: "page_occurs pre d rest s"
    using rest(1) by (simp add: pt(1) page_occurs_shift)
  have "length pre \<le> length pre'" if o: "page_occurs pre' d' rest' s" for pre' d' rest'
  proof (rule ccontr)
    assume "\<not> length pre \<le> length pre'"
    then have lt: "length pre' < length pre" by simp
    obtain t' where t': "s = pre' @ t'"
      using page_occurs_split [OF o] ..
    then have "match_page_at t' = None"
      using least lt by blast
    moreover have "page_occurs [] d' rest' t'"
      using o by (simp add: t' page_occurs_shift)
    ultimately show False
      using match_page_at_occurs by blast
  qed
  then show ?thesis
    using occ rest(2) by blast
qed

lemma page_search_None_iff: "page_search s = None \<longleftrightarrow> \<not> has_page_pattern s"
proof
  assume n: "page_search s = None"
  show "\<not> has_page_pattern s"
  proof
    assume "has_page_pattern s"
    then obtain pre d rest where o: "page_occurs pre d rest s"
      by (auto simp: has_page_pattern_def)
    obtain t where t: "s = pre @ t"
      using page_occurs_split [OF o] ..
    then have "page_occurs [] d rest t"
      using o by (simp add: page_occurs_shift)
    then show False
      using page_search_None [OF n t] match_page_at_occurs by blast
  qed
next
  assume "\<not> has_page_pattern s"
  then show "page_search s = None"
    using page_search_leftmost [of s] by (cases "page_search s") (auto simp: has_page_pattern_def)
qed

lemma has_digit_iff: "has_digit s \<longleftrightarrow> (\<exists>c \<in> set s. is_digit c)"
  by (simp add: has_digit_def list_ex_iff)

lemma digit_runs_Nil_iff: "digit_runs s = [] \<longleftrightarrow> \<not> has_digit s"
  by (induction s rule: digit_runs.induct) (auto simp: has_digit_iff)

lemma digit_runs_last:
  "digit_runs s \<noteq> [] \<Longrightarrow>
     \<exists>pre post. s = pre @ last (digit_runs s) @ post \<and> last (digit_runs s) \<noteq> [] \<and>
       list_all is_digit (last (digit_runs s)) \<and> \<not> has_digit post \<and>
       (pre = [] \<or> \<not> is_digit (last pre))"
proof (induction s rule: digit_runs.induct)
  case 1
  then show ?case by simp
next
  case (2 c s)
  show ?case
  proof (cases "is_digit c")
    case True
    let ?tw = "c # takeWhile is_digit s"
    let ?dw = "dropWhile is_digit s"
    have runs: "digit_runs (c # s) = ?tw # digit_runs ?dw"
      using True by simp
    have split: "c # s = ?tw @ ?dw"
      by simp
    have tw: "list_all is_digit ?tw"
      using True by (auto simp: list_all_iff dest: set_takeWhileD)
    show ?thesis
    proof (cases "digit_runs ?dw = []")
      case Nil: True
      then have "\<not> has_digit ?dw"
        by (simp add: digit_runs_Nil_iff)
      moreover have l: "last (digit_runs (c # s)) = ?tw"
        using runs Nil by simp
      moreover have "c # s = [] @ ?tw @ ?dw" "?tw \<noteq> []"
        by simp_all
      ultimately show ?thesis
        unfolding l using tw by blast
    next
      case False
      then have l: "last (digit_runs (c # s)) = last (digit_runs ?dw)"
        using runs by simp
      from "2.IH"(1) [OF True False] obtain pre post where
        pp: "?dw = pre @ last (digit_runs ?dw) @ post" and ne: "last (digit_runs ?dw) \<noteq> []"
        and dig: "list_all is_digit (last (digit_runs ?dw))" and post: "\<not> has_digit post"
        and pre: "pre = [] \<or> \<not> is_digit (last pre)"
        by blast
      have "pre \<noteq> []"
      proof
        assume "pre = []"
        then have "hd ?dw = hd (last (digit_runs ?dw))"
          using pp ne by (metis append_Nil hd_append2)
        moreover have "is_digit (hd (last (digit_runs ?dw)))"
          using ne dig by (cases "last (digit_runs ?dw)") auto
        moreover have "?dw \<noteq> []"
          using False digit_runs.simps(1) by metis
        ultimately show False
          using hd_dropWhile [of is_digit s] by simp
      qed
      then have B: "?tw @ pre = [] \<or> \<not> is_digit (last (?tw @ pre))"
        using pre by simp
      have A: "c # s = (?tw @ pre) @ last (digit_runs ?dw) @ post"
        using split pp by (metis append_assoc)
      show ?thesis
        unfolding l using A ne dig post B by blast
    qed
  next
    case False
    then have runs: "digit_runs (c # s) = digit_runs s"
      by simp
    then have "digit_runs s \<noteq> []"
      using "2.prems" by simp
    from "2.IH"(2) [OF False this] obtain pre post where
      pp: "s = pre @ last (digit_runs s) @ post" and ne: "last (digit_runs s) \<noteq> []"
      and dig: "list_all is_digit (last (digit_runs s))" and post: "\<not> has_digit post"
      and pre: "pre = [] \<or> \<not> is_digit (last pre)"
      by blast
    have B: "c # pre = [] \<or> \<not> is_digit (last (c # pre))"
      using pre False by auto
    have A: "c # s = (c # pre) @ last (digit_runs s) @ post"
      using pp by simp
    show ?thesis
      unfolding runs using A ne dig post B by blast
  qed
qed

lemma has_page_pattern_digit: "has_page_pattern s \<Longrightarrow> has_digit s"
proof -
  assume "has_page_pattern s"
  then obtain pre d rest w sep where s: "s = pre @ w @ sep @ d @ rest" and d: "d \<noteq> []" "list_all is_digit d"
    unfolding has_page_pattern_def page_occurs_def by (elim exE conjE)
  from d obtain c where "c \<in> set d" "is_digit c"
    by (cases d) auto
  then show ?thesis
    unfolding has_digit_iff s by auto
qed

lemma page_sort_key_page:
  assumes "has_page_pattern (path_stem p)"
  shows "\<exists>pre d rest. page_occurs pre d rest (path_stem p) \<and> (rest = [] \<or> \<not> is_digit (hd rest)) \<and>
           (\<forall>pre' d' rest'. page_occurs pre' d' rest' (path_stem p) \<longrightarrow> length pre \<le> length pre') \<and>
           page_sort_key p = (enat (int_of_digits d), path_name p)"
proof -
  from assms obtain d where d: "page_search (path_stem p) = Some d"
    using page_search_None_iff [of "path_stem p"] by (cases "page_search (path_stem p)") auto
  then have "page_sort_key p = (enat (int_of_digits d), path_name p)"
    by (simp add: page_sort_key_def)
  then show ?thesis
    using page_search_leftmost [OF d] by blast
qed

lemma page_sort_key_digits:
  assumes "\<not> has_page_pattern (path_stem p)" and "has_digit (path_stem p)"
  shows "\<exists>pre d post. path_stem p = pre @ d @ post \<and> d \<noteq> [] \<and> list_all is_digit d \<and>
           \<not> has_digit post \<and> (pre = [] \<or> \<not> is_digit (last pre)) \<and>
           page_sort_key p = (enat (int_of_digits d), path_name p)"
proof -
  have n: "page_search (path_stem p) = None"
    using assms(1) by (simp add: page_search_None_iff)
  have ne: "digit_runs (path_stem p) \<noteq> []"
    using assms(2) by (simp add: digit_runs_Nil_iff)
  then have "page_sort_key p = (enat (int_of_digits (last (digit_runs (path_stem p)))), path_name p)"
    using n by (cases "digit_runs (path_stem p)") (simp_all add: page_sort_key_def)
  then show ?thesis
    using digit_runs_last [OF ne] by blast
qed

lemma page_sort_key_none:
  assumes "\<not> has_digit (path_stem p)"
  shows "page_sort_key p = (\<infinity>, path_name p)"
proof -
  have "\<not> has_page_pattern (path_stem p)"
    using assms has_page_pattern_digit by blast
  then have "page_search (path_stem p) = None"
    by (simp add: page_search_None_iff)
  moreover have "digit_runs (path_stem p) = []"
    using assms by (simp add: digit_runs_Nil_iff)
  ultimately show ?thesis
    by (simp add: page_sort_key_def)
qed

lemma page_sort_key_snd: "snd (page_sort_key p) = path_name p"
  by (simp add: page_sort_key_def split: option.splits list.splits)

lemma page_sort_key_numbered:
  assumes "has_digit (path_stem p)"
  shows "\<exists>n. page_sort_key p = (enat n, path_name p)"
proof (cases "has_page_pattern (path_stem p)")
  case True
  then show ?thesis using page_sort_key_page by blast
next
  case False
  then show ?thesis using page_sort_key_digits [OF False assms] by blast
qed

lemma page_sort_key_order:
  "(has_digit (path_stem p) \<and> \<not> has_digit (path_stem q) \<longrightarrow> page_sort_key p < page_sort_key q) \<and>
   (fst (page_sort_key p) = fst (page_sort_key q) \<longrightarrow>
      (page_sort_key p \<le> page_sort_key q \<longleftrightarrow> path_name p \<le> path_name q))"
proof (intro conjI impI)
  assume "has_digit (path_stem p) \<and> \<not> has_digit (path_stem q)"
  then obtain n where "page_sort_key p = (enat n, path_name p)" "page_sort_key q = (\<infinity>, path_name q)"
    using page_sort_key_numbered page_sort_key_none by blast
  then show "page_sort_key p < page_sort_key q"
    by simp
next
  assume "fst (page_sort_key p) = fst (page_sort_key q)"
  then obtain k where "page_sort_key p = (k, path_name p)" "page_sort_key q = (k, path_name q)"
    using page_sort_key_snd [of p] page_sort_key_snd [of q] by (metis prod.collapse)
  then show "page_sort_key p \<le> page_sort_key q \<longleftrightarrow> path_name p \<le> path_name q"
    by simp
qed

text \<open>
  C2. The ordering key of a page. If the stem contains the word page (in any case),
  optionally followed by \<^verbatim>\<open>_\<close> or \<^verbatim>\<open>-\<close>, and digits, the key is the number after the leftmost
  such occurrence (all of its digits) with the file name. Otherwise, if the stem contains a
  digit, the key is the number of its last run of digits with the file name. Otherwise the
  key is infinity with the file name. So a file without digits sorts after every numbered
  file, and equal numbers are ordered by file name. A folder with \<^verbatim>\<open>a_page2.png\<close>,
  \<^verbatim>\<open>a_page1.png\<close>, \<^verbatim>\<open>a_page10.png\<close> is listed as \<^verbatim>\<open>a_page1.png\<close>, \<^verbatim>\<open>a_page2.png\<close>, \<^verbatim>\<open>a_page10.png\<close>.
\<close>

theorem page_sort_key_cases:
  "(has_page_pattern (path_stem p) \<longrightarrow>
      (\<exists>pre d rest. page_occurs pre d rest (path_stem p) \<and> (rest = [] \<or> \<not> is_digit (hd rest)) \<and>
         (\<forall>pre' d' rest'. page_occurs pre' d' rest' (path_stem p) \<longrightarrow> length pre \<le> length pre') \<and>
         page_sort_key p = (enat (int_of_digits d), path_name p)))
   \<and> (\<not> has_page_pattern (path_stem p) \<and> has_digit (path_stem p) \<longrightarrow>
      (\<exists>pre d post. path_stem p = pre @ d @ post \<and> d \<noteq> [] \<and> list_all is_digit d \<and>
         \<not> has_digit post \<and> (pre = [] \<or> \<not> is_digit (last pre)) \<and>
         page_sort_key p = (enat (int_of_digits d), path_name p)))
   \<and> (\<not> has_page_pattern (path_stem p) \<and> \<not> has_digit (path_stem p) \<longrightarrow>
        page_sort_key p = (\<infinity>, path_name p))
   \<and> (has_digit (path_stem p) \<and> \<not> has_digit (path_stem q) \<longrightarrow> page_sort_key p < page_sort_key q)
   \<and> (fst (page_sort_key p) = fst (page_sort_key q) \<longrightarrow>
        (page_sort_key p \<le> page_sort_key q \<longleftrightarrow> path_name p \<le> path_name q))
   \<and> discover_receipts
        [([], Dir), ([''w''], Dir), ([''w'', ''f''], Dir),
         ([''w'', ''f'', ''a_page2.png''], File (Text ''2'')),
         ([''w'', ''f'', ''a_page1.png''], File (Text ''1'')),
         ([''w'', ''f'', ''a_page10.png''], File (Text ''10''))] [''w'']
      = Inr [\<lparr>name = ''f'', pages = [[''w'', ''f'', ''a_page1.png''], [''w'', ''f'', ''a_page2.png''],
                                     [''w'', ''f'', ''a_page10.png'']]\<rparr>]"
proof -
  have "discover_receipts
        [([], Dir), ([''w''], Dir), ([''w'', ''f''], Dir),
         ([''w'', ''f'', ''a_page2.png''], File (Text ''2'')),
         ([''w'', ''f'', ''a_page1.png''], File (Text ''1'')),
         ([''w'', ''f'', ''a_page10.png''], File (Text ''10''))] [''w'']
      = Inr [\<lparr>name = ''f'', pages = [[''w'', ''f'', ''a_page1.png''], [''w'', ''f'', ''a_page2.png''],
                                     [''w'', ''f'', ''a_page10.png'']]\<rparr>]"
    by code_simp
  then show ?thesis
    using page_sort_key_page [of p] page_sort_key_digits [of p] page_sort_key_none [of p]
      page_sort_key_order [of p q]
    by (intro conjI impI) blast+
qed

theorem page_sort_key_cases_witness:
  "has_page_pattern (path_stem [''w'', ''f'', ''a_page10.png''])
   \<and> (\<exists>pre d rest. page_occurs pre d rest (path_stem [''w'', ''f'', ''a_page10.png'']) \<and>
         page_sort_key [''w'', ''f'', ''a_page10.png''] = (enat (int_of_digits d), ''a_page10.png''))
   \<and> page_sort_key [''w'', ''f'', ''a_page10.png''] = (enat 10, ''a_page10.png'')
   \<and> \<not> has_page_pattern (path_stem [''w'', ''f'', ''img_3-12.png''])
   \<and> has_digit (path_stem [''w'', ''f'', ''img_3-12.png''])
   \<and> (\<exists>pre d post. path_stem [''w'', ''f'', ''img_3-12.png''] = pre @ d @ post \<and> \<not> has_digit post \<and>
         page_sort_key [''w'', ''f'', ''img_3-12.png''] = (enat (int_of_digits d), ''img_3-12.png''))
   \<and> page_sort_key [''w'', ''f'', ''img_3-12.png''] = (enat 12, ''img_3-12.png'')
   \<and> \<not> has_page_pattern (path_stem [''w'', ''f'', ''cover.png''])
   \<and> \<not> has_digit (path_stem [''w'', ''f'', ''cover.png''])
   \<and> page_sort_key [''w'', ''f'', ''cover.png''] = (\<infinity>, ''cover.png'')
   \<and> page_sort_key [''w'', ''f'', ''a_page10.png''] < page_sort_key [''w'', ''f'', ''cover.png'']
   \<and> fst (page_sort_key [''w'', ''f'', ''a1.png'']) = fst (page_sort_key [''w'', ''f'', ''b1.png''])
   \<and> page_sort_key [''w'', ''f'', ''a1.png''] \<le> page_sort_key [''w'', ''f'', ''b1.png'']"
proof -
  let ?p = "[''w'', ''f'', ''a_page10.png'']"
  let ?d = "[''w'', ''f'', ''img_3-12.png'']"
  let ?q = "[''w'', ''f'', ''cover.png'']"
  let ?a = "[''w'', ''f'', ''a1.png'']"
  let ?b = "[''w'', ''f'', ''b1.png'']"
  have st: "path_stem ?p = ''a_'' @ ''page'' @ [] @ ''10'' @ []"
    by code_simp
  have "map lower_char ''page'' = ''page''" "list_all is_digit ''10''"
    by code_simp+
  then have "page_occurs ''a_'' ''10'' [] (path_stem ?p)"
    unfolding page_occurs_def st by (intro exI [of _ "''page''"] exI [of _ "[]"]) simp
  then have hp: "has_page_pattern (path_stem ?p)"
    unfolding has_page_pattern_def by blast
  have "page_search (path_stem ?d) = None" "page_search (path_stem ?q) = None"
    by code_simp+
  then have np: "\<not> has_page_pattern (path_stem ?d)" "\<not> has_page_pattern (path_stem ?q)"
    by (simp_all add: page_search_None_iff)
  have hd: "has_digit (path_stem ?p)" "has_digit (path_stem ?d)" "\<not> has_digit (path_stem ?q)"
    by code_simp+
  have k: "page_sort_key ?p = (enat 10, ''a_page10.png'')"
      "page_sort_key ?d = (enat 12, ''img_3-12.png'')"
    by code_simp+
  have n: "path_name ?p = ''a_page10.png''" "path_name ?d = ''img_3-12.png''"
      "path_name ?q = ''cover.png''" "path_name ?a \<le> path_name ?b"
    by code_simp+
  have t: "fst (page_sort_key ?a) = fst (page_sort_key ?b)"
    by code_simp
  have 1: "\<exists>pre d rest. page_occurs pre d rest (path_stem ?p) \<and>
         page_sort_key ?p = (enat (int_of_digits d), ''a_page10.png'')"
    using page_sort_key_cases [of ?p ?q] hp n(1) by auto
  have 2: "\<exists>pre d post. path_stem ?d = pre @ d @ post \<and> \<not> has_digit post \<and>
         page_sort_key ?d = (enat (int_of_digits d), ''img_3-12.png'')"
    using page_sort_key_cases [of ?d ?q] np(1) hd(2) n(2) by auto
  have 3: "page_sort_key ?q = (\<infinity>, ''cover.png'')"
    using page_sort_key_cases [of ?q ?q] np(2) hd(3) n(3) by auto
  have 4: "page_sort_key ?p < page_sort_key ?q"
    using page_sort_key_cases [of ?p ?q] hd(1,3) by blast
  have 5: "page_sort_key ?a \<le> page_sort_key ?b"
    using page_sort_key_cases [of ?a ?b] t n(4) by blast
  show ?thesis
    using hp 1 k np hd(2,3) 2 3 4 t 5 by (intro conjI)
qed

section \<open>Properties of _run_model\<close>






section \<open>Properties of safe_extract_zip\<close>

text \<open>Every member is checked before anything is extracted: one member that fails the
  test makes the call fail, and no file system is returned.\<close>

lemma safe_extract_zip_rejects:
  assumes "map_of fs zip_path = Some (File (Archive members))"
      and "m \<in> set members" and "\<not> member_passes cwd dest_dir (fst m)"
  shows "\<exists>f. safe_extract_zip fs cwd zip_path dest_dir = Inl (ValueError f)"
proof -
  have "find (\<lambda>m. \<not> member_passes cwd dest_dir (fst m)) members \<noteq> None"
    unfolding find_None_iff using assms(2,3) by blast
  then obtain m' where "find (\<lambda>m. \<not> member_passes cwd dest_dir (fst m)) members = Some m'"
    by blast
  then show ?thesis
    using assms(1) by (simp add: safe_extract_zip_def)
qed

text \<open>
  C1. An archive entry whose resolved path lies outside the destination root must make
  \<^verbatim>\<open>safe_extract_zip\<close> fail with a path-traversal error, and its file must not be created.
  The code compares the two paths as strings: with the destination \<^verbatim>\<open>/tmp/receipts_ab\<close> the
  entry \<^verbatim>\<open>../receipts_abc/evil.png\<close> resolves to \<^verbatim>\<open>/tmp/receipts_abc/evil.png\<close>, which is outside
  the root yet starts with the root's string. The call raises nothing and the entry is
  extracted.
\<close>

theorem safe_extract_zip_sibling_prefix:
  "resolve (joinpath [] ''/tmp/receipts_ab'') = [''tmp'', ''receipts_ab'']
   \<and> resolve (joinpath (joinpath [] ''/tmp/receipts_ab'') ''../receipts_abc/evil.png'')
       = [''tmp'', ''receipts_abc'', ''evil.png'']
   \<and> \<not> prefix [''tmp'', ''receipts_ab''] [''tmp'', ''receipts_abc'', ''evil.png'']
   \<and> safe_extract_zip
         [([], Dir), ([''tmp''], Dir), ([''tmp'', ''receipts_ab''], Dir),
          ([''tmp'', ''up.zip''], File (Archive [(''../receipts_abc/evil.png'', Text ''E'')]))]
         [] [''tmp'', ''up.zip''] ''/tmp/receipts_ab''
       = Inr [([''tmp'', ''receipts_ab'', ''receipts_abc'', ''evil.png''], File (Text ''E'')),
              ([''tmp'', ''receipts_ab'', ''receipts_abc''], Dir),
              ([], Dir), ([''tmp''], Dir), ([''tmp'', ''receipts_ab''], Dir),
              ([''tmp'', ''up.zip''], File (Archive [(''../receipts_abc/evil.png'', Text ''E'')]))]"
proof -
  have "resolve (joinpath [] ''/tmp/receipts_ab'') = [''tmp'', ''receipts_ab'']"
    by code_simp
  moreover have "resolve (joinpath (joinpath [] ''/tmp/receipts_ab'') ''../receipts_abc/evil.png'')
       = [''tmp'', ''receipts_abc'', ''evil.png'']"
    by code_simp
  moreover have "\<not> prefix [''tmp'', ''receipts_ab''] [''tmp'', ''receipts_abc'', ''evil.png'']"
    by simp
  moreover have "safe_extract_zip
         [([], Dir), ([''tmp''], Dir), ([''tmp'', ''receipts_ab''], Dir),
          ([''tmp'', ''up.zip''], File (Archive [(''../receipts_abc/evil.png'', Text ''E'')]))]
         [] [''tmp'', ''up.zip''] ''/tmp/receipts_ab''
       = Inr [([''tmp'', ''receipts_ab'', ''receipts_abc'', ''evil.png''], File (Text ''E'')),
              ([''tmp'', ''receipts_ab'', ''receipts_abc''], Dir),
              ([], Dir), ([''tmp''], Dir), ([''tmp'', ''receipts_ab''], Dir),
              ([''tmp'', ''up.zip''], File (Archive [(''../receipts_abc/evil.png'', Text ''E'')]))]"
    by code_simp
  ultimately show ?thesis
    by blast
qed

end
